theory Spec2Isabelle
  imports Main "HOL-Library.Word" "HOL-Library.AList"
begin

unbundle bit_operations_syntax

section \<open>Consistent hashing ring (package consistent)\<close>

text \<open>
  A shallow embedding of \<^verbatim>\<open>consistent.go\<close>. Go's \<^verbatim>\<open>uint32\<close>, \<^verbatim>\<open>byte\<close> and
  \<^verbatim>\<open>int\<close>/\<^verbatim>\<open>int64\<close> are words of 32, 8 and 64 bits (the 64-bit ones read with
  \<open>sint\<close>); a Go string is its byte sequence, here a \<open>string\<close> (a list of 8-bit
  characters). The two Go maps of the ring are association lists with pairwise
  distinct keys, updated with \<open>AList.update\<close> and \<open>AList.delete\<close>; the order of
  a list stands for the unspecified order in which \<^verbatim>\<open>range\<close> visits a map. Go's
  \<^verbatim>\<open>int\<close> is taken as 64 bits wide; loop indices, which never exceed a slice length
  by more than one, are natural numbers. The read-write lock is not modelled (every
  operation is taken as one atomic step), nor is the \<^verbatim>\<open>scratch\<close> field of the
  struct, which no operation reads or writes, nor the memory limit of the run-time
  system.
\<close>

type_synonym byte = "8 word"

type_synonym uint32 = "32 word"

type_synonym int64 = "64 word"

subsection \<open>The library functions the ring calls\<close>

text \<open>
  \<^verbatim>\<open>crc32.ChecksumIEEE\<close> of Go's standard library, after its portable implementation
  (\<^verbatim>\<open>simplePopulateTable\<close> and \<^verbatim>\<open>simpleUpdate\<close> with the reversed IEEE polynomial
  \<^verbatim>\<open>0xedb88320\<close>).
\<close>

definition crcBit :: "uint32 \<Rightarrow> uint32" where
  "crcBit crc = (if crc AND 1 = 1 then drop_bit 1 crc XOR 0xEDB88320 else drop_bit 1 crc)"

definition ieeeTable :: "byte \<Rightarrow> uint32" where
  "ieeeTable i = (crcBit ^^ 8) (ucast i)"

text \<open>One round of the loop of \<^verbatim>\<open>simpleUpdate\<close>: \<^verbatim>\<open>crc = tab[byte(crc)^v] ^ (crc >> 8)\<close>.\<close>

definition simpleUpdate_step :: "uint32 \<Rightarrow> byte \<Rightarrow> uint32" where
  "simpleUpdate_step crc v = ieeeTable (ucast crc XOR v) XOR drop_bit 8 crc"

definition simpleUpdate :: "uint32 \<Rightarrow> byte list \<Rightarrow> uint32" where
  "simpleUpdate crc p = NOT (foldl simpleUpdate_step (NOT crc) p)"

definition ChecksumIEEE :: "byte list \<Rightarrow> uint32" where
  "ChecksumIEEE data = simpleUpdate 0 data"

text \<open>\<^verbatim>\<open>[]byte(s)\<close>: the bytes of a string.\<close>

definition bytes :: "string \<Rightarrow> byte list" where
  "bytes s = map of_char s"

text \<open>
  The built-in \<^verbatim>\<open>copy(dst, src)\<close>: the first \<open>min (len dst) (len src)\<close> bytes of
  \<open>dst\<close> are overwritten with those of \<open>src\<close>; the function returns the new \<open>dst\<close>.
\<close>

definition copy :: "byte list \<Rightarrow> byte list \<Rightarrow> byte list" where
  "copy dst src = take (length dst) src @ drop (length src) dst"

text \<open>\<^verbatim>\<open>strconv.Itoa\<close>: the decimal digits of an integer, with a sign when negative.\<close>

function digits :: "nat \<Rightarrow> string" where
  "digits n = (if n < 10 then [char_of (48 + n)]
               else digits (n div 10) @ [char_of (48 + n mod 10)])"
  by pat_completeness auto
termination
  by (relation "measure (\<lambda>n. n)") auto

declare digits.simps [simp del]

definition Itoa :: "int \<Rightarrow> string" where
  "Itoa i = (if i < 0 then CHR ''-'' # digits (nat (- i)) else digits (nat i))"

text \<open>
  \<^verbatim>\<open>sort.Search(n, f)\<close>: the binary search of Go's standard library, with its loop
  on the pair \<open>(i, j)\<close>.
\<close>

function Search_loop :: "nat \<Rightarrow> nat \<Rightarrow> (nat \<Rightarrow> bool) \<Rightarrow> nat" where
  "Search_loop i j f =
     (if i < j then
        (let h = (i + j) div 2
         in if \<not> f h then Search_loop (h + 1) j f else Search_loop i h f)
      else i)"
  by pat_completeness auto
termination
  by (relation "measure (\<lambda>(i, j, f). j - i)") auto

declare Search_loop.simps [simp del]

definition Search :: "nat \<Rightarrow> (nat \<Rightarrow> bool) \<Rightarrow> nat" where
  "Search n f = Search_loop 0 n f"

subsection \<open>Node handles, errors and the ring state\<close>

text \<open>
  Modelled from the spec: the node type \<^verbatim>\<open>lineProtocol.WriteCloser\<close> is declared in
  another package. The spec asks of a node handle a comparable identity and a stable
  name; a handle is modelled as its identity together with its name, and two handles
  are equal when both agree, so distinct handles may carry the same name. The
  \<^verbatim>\<open>nil\<close> interface value is \<open>None\<close> of \<open>WriteCloser option\<close>.
\<close>

datatype WriteCloser = WriteCloser (ident: nat) (Name: string)

text \<open>
  \<open>ErrEmptyCircle\<close> is the package's error value; the others are the run-time panics
  of Go that the code can reach: an index out of range, an integer division by zero,
  and \<^verbatim>\<open>make\<close> called with a negative capacity.
\<close>

datatype error =
  ErrEmptyCircle | PanicIndexOutOfRange | PanicDivideByZero | PanicMakeSliceCapOutOfRange

record Consistent =
  circle :: "(uint32 \<times> WriteCloser) list"
  members :: "(WriteCloser \<times> bool) list"
  sortedHashes :: "uint32 list"
  NumberOfReplicas :: int64
  count :: int64

definition New :: Consistent where
  "New = \<lparr>circle = [], members = [], sortedHashes = [], NumberOfReplicas = 20, count = 0\<rparr>"

subsection \<open>Hashing and replica keys\<close>

definition hashKey :: "string \<Rightarrow> uint32" where
  "hashKey key =
     (if length key < 64 then
        (let scratch = copy (replicate 64 0) (bytes key)
         in ChecksumIEEE (take (length key) scratch))
      else ChecksumIEEE (bytes key))"

definition elementKey :: "WriteCloser \<Rightarrow> int \<Rightarrow> string" where
  "elementKey element index = Itoa index @ Name element"

text \<open>
  The values of \<open>i\<close> in \<^verbatim>\<open>for i := 0; i < c.NumberOfReplicas; i++\<close>; none when the
  replica count is zero or negative.
\<close>

definition replicaIndices :: "Consistent \<Rightarrow> int list" where
  "replicaIndices c = [0 .. sint (NumberOfReplicas c) - 1]"

subsection \<open>Mutations\<close>

text \<open>
  \<^verbatim>\<open>updateSortedHashes\<close> collects the keys of the position table and sorts them. The
  test \<^verbatim>\<open>cap(c.sortedHashes)/(c.NumberOfReplicas*4) > len(c.circle)\<close> only chooses
  between reusing the backing array and allocating a new one, and the model does not
  track capacities; its division, however, panics when the 64-bit product
  \<^verbatim>\<open>c.NumberOfReplicas*4\<close> is zero, and that panic is kept.
\<close>

definition updateSortedHashes :: "Consistent \<Rightarrow> error + Consistent" where
  "updateSortedHashes c =
     (if NumberOfReplicas c * 4 = 0 then Inl PanicDivideByZero
      else Inr (c\<lparr>sortedHashes := sort (map fst (circle c))\<rparr>))"

definition add :: "Consistent \<Rightarrow> WriteCloser \<Rightarrow> error + Consistent" where
  "add c element =
     (let c1 = c\<lparr>circle := foldl (\<lambda>m i. AList.update (hashKey (elementKey element i)) element m)
                                (circle c) (replicaIndices c)\<rparr>;
          c2 = c1\<lparr>members := AList.update element True (members c1)\<rparr>
      in case updateSortedHashes c2 of
           Inl e \<Rightarrow> Inl e
         | Inr c3 \<Rightarrow> Inr (c3\<lparr>count := count c3 + 1\<rparr>))"

definition Add :: "Consistent \<Rightarrow> WriteCloser \<Rightarrow> error + Consistent" where
  "Add c element = add c element"

definition remove :: "Consistent \<Rightarrow> WriteCloser \<Rightarrow> error + Consistent" where
  "remove c element =
     (let c1 = c\<lparr>circle := foldl (\<lambda>m i. AList.delete (hashKey (elementKey element i)) m)
                                (circle c) (replicaIndices c)\<rparr>;
          c2 = c1\<lparr>members := AList.delete element (members c1)\<rparr>
      in case updateSortedHashes c2 of
           Inl e \<Rightarrow> Inl e
         | Inr c3 \<Rightarrow> Inr (c3\<lparr>count := count c3 - 1\<rparr>))"

definition Remove :: "Consistent \<Rightarrow> WriteCloser \<Rightarrow> error + Consistent" where
  "Remove c element = remove c element"

text \<open>
  The first loop of \<^verbatim>\<open>Set\<close> ranges over the members and removes those not found in
  \<open>elements\<close>; \<open>ks\<close> is the sequence of keys the \<^verbatim>\<open>range\<close> produces. Only the key
  just visited is ever deleted, so every member is visited once.
\<close>

fun Set_remove_loop :: "WriteCloser list \<Rightarrow> WriteCloser list \<Rightarrow> Consistent \<Rightarrow> error + Consistent" where
  "Set_remove_loop elements [] c = Inr c"
| "Set_remove_loop elements (k # ks) c =
     (if k \<in> set elements then Set_remove_loop elements ks c
      else case remove c k of
             Inl e \<Rightarrow> Inl e
           | Inr c' \<Rightarrow> Set_remove_loop elements ks c')"

text \<open>The second loop adds the elements that are not yet keys of the membership map.\<close>

fun Set_add_loop :: "WriteCloser list \<Rightarrow> Consistent \<Rightarrow> error + Consistent" where
  "Set_add_loop [] c = Inr c"
| "Set_add_loop (v # vs) c =
     (if map_of (members c) v \<noteq> None then Set_add_loop vs c
      else case add c v of
             Inl e \<Rightarrow> Inl e
           | Inr c' \<Rightarrow> Set_add_loop vs c')"

definition Set :: "Consistent \<Rightarrow> WriteCloser list \<Rightarrow> error + Consistent" where
  "Set c elements =
     (case Set_remove_loop elements (map fst (members c)) c of
        Inl e \<Rightarrow> Inl e
      | Inr c' \<Rightarrow> Set_add_loop elements c')"

subsection \<open>Queries\<close>

definition search :: "Consistent \<Rightarrow> uint32 \<Rightarrow> nat" where
  "search c key =
     (let i = Search (length (sortedHashes c)) (\<lambda>x. sortedHashes c ! x > key)
      in if i \<ge> length (sortedHashes c) then 0 else i)"

definition Get :: "Consistent \<Rightarrow> string \<Rightarrow> error + WriteCloser option" where
  "Get c name =
     (if length (circle c) = 0 then Inl ErrEmptyCircle
      else
        (let key = hashKey name; i = search c key
         in if i \<ge> length (sortedHashes c) then Inl PanicIndexOutOfRange
            else Inr (map_of (circle c) (sortedHashes c ! i))))"

fun sliceContainsMember :: "WriteCloser option list \<Rightarrow> WriteCloser option \<Rightarrow> bool" where
  "sliceContainsMember [] member = False"
| "sliceContainsMember (m # ms) member = (if m = member then True else sliceContainsMember ms member)"

text \<open>
  The loop \<^verbatim>\<open>for i = start + 1; i != start; i++\<close> of \<^verbatim>\<open>GetTwo\<close>, entered at its
  test with the current \<open>i\<close> and \<open>b\<close>. Nothing bounds the number of its rounds, so
  the result is an option: \<open>None\<close> is a loop that never ends.
\<close>

partial_function (option) GetTwo_loop ::
  "Consistent \<Rightarrow> WriteCloser option \<Rightarrow> nat \<Rightarrow> nat \<Rightarrow> WriteCloser option
     \<Rightarrow> (error + WriteCloser option) option" where
  "GetTwo_loop c a start i0 b0 =
     (if i0 = start then Some (Inr b0)
      else
        (let i = (if i0 \<ge> length (sortedHashes c) then 0 else i0)
         in if i \<ge> length (sortedHashes c) then Some (Inl PanicIndexOutOfRange)
            else
              (let b = map_of (circle c) (sortedHashes c ! i)
               in if b \<noteq> a then Some (Inr b)
                  else GetTwo_loop c a start (i + 1) b)))"

declare GetTwo_loop.simps [code]

definition GetTwo ::
  "Consistent \<Rightarrow> string \<Rightarrow> (error + WriteCloser option \<times> WriteCloser option) option" where
  "GetTwo c name =
     (if length (circle c) = 0 then Some (Inl ErrEmptyCircle)
      else
        (let key = hashKey name; i = search c key
         in if i \<ge> length (sortedHashes c) then Some (Inl PanicIndexOutOfRange)
            else
              (let a = map_of (circle c) (sortedHashes c ! i)
               in if count c = 1 then Some (Inr (a, None))
                  else (case GetTwo_loop c a i (i + 1) None of
                          None \<Rightarrow> None
                        | Some (Inl e) \<Rightarrow> Some (Inl e)
                        | Some (Inr b) \<Rightarrow> Some (Inr (a, b))))))"

text \<open>The loop of \<^verbatim>\<open>GetN\<close>, entered at its test with the current \<open>i\<close> and \<open>res\<close>.\<close>

partial_function (option) GetN_loop ::
  "Consistent \<Rightarrow> int64 \<Rightarrow> nat \<Rightarrow> nat \<Rightarrow> WriteCloser option list
     \<Rightarrow> (error + WriteCloser option list) option" where
  "GetN_loop c n start i0 res0 =
     (if i0 = start then Some (Inr res0)
      else
        (let i = (if i0 \<ge> length (sortedHashes c) then 0 else i0)
         in if i \<ge> length (sortedHashes c) then Some (Inl PanicIndexOutOfRange)
            else
              (let elem = map_of (circle c) (sortedHashes c ! i);
                   res = (if \<not> sliceContainsMember res0 elem then res0 @ [elem] else res0)
               in if int (length res) = sint n then Some (Inr res)
                  else GetN_loop c n start (i + 1) res)))"

declare GetN_loop.simps [code]

text \<open>
  \<^verbatim>\<open>GetN\<close>. After the clamp of \<open>n\<close> to the count, the declarations are evaluated in
  order: the search, \<^verbatim>\<open>make([]lineProtocol.WriteCloser, 0, n)\<close>, which panics for a
  negative \<open>n\<close>, and the read of the node at the search index.
\<close>

definition GetN :: "Consistent \<Rightarrow> string \<Rightarrow> int64 \<Rightarrow> (error + WriteCloser option list) option" where
  "GetN c name n0 =
     (if length (circle c) = 0 then Some (Inl ErrEmptyCircle)
      else
        (let n = (if count c <s n0 then count c else n0);
             key = hashKey name;
             i = search c key
         in if sint n < 0 then Some (Inl PanicMakeSliceCapOutOfRange)
            else if i \<ge> length (sortedHashes c) then Some (Inl PanicIndexOutOfRange)
            else
              (let res = [map_of (circle c) (sortedHashes c ! i)]
               in if int (length res) = sint n then Some (Inr res)
                  else GetN_loop c n i (i + 1) res)))"

section \<open>Properties of ring states\<close>

text \<open>The replica positions of a node: one hash for every replica index.\<close>

definition replicaPositions :: "Consistent \<Rightarrow> WriteCloser \<Rightarrow> uint32 list" where
  "replicaPositions c x = map (\<lambda>i. hashKey (elementKey x i)) (replicaIndices c)"

text \<open>
  The sorted position cache agrees with the position table: the keys of the table are
  pairwise distinct (it is a map) and the cache is their ascending sequence.
\<close>

definition cacheConsistent :: "Consistent \<Rightarrow> bool" where
  "cacheConsistent c \<longleftrightarrow>
     distinct (map fst (circle c)) \<and> sortedHashes c = sort (map fst (circle c))"

text \<open>Every entry of the position table is a replica position of a registered node.\<close>

definition tableOwned :: "Consistent \<Rightarrow> bool" where
  "tableOwned c \<longleftrightarrow>
     (\<forall>(p, x) \<in> set (circle c). x \<in> fst ` set (members c) \<and> p \<in> set (replicaPositions c x))"

definition ringInvariant :: "Consistent \<Rightarrow> bool" where
  "ringInvariant c \<longleftrightarrow> cacheConsistent c \<and> distinct (map fst (members c)) \<and> tableOwned c"

text \<open>
  The ring states a caller can produce: a new ring, its replica count set before the
  first node is added, followed by any sequence of \<open>Add\<close>, \<open>Remove\<close> and \<open>Set\<close>
  that does not panic.
\<close>

inductive reachable :: "Consistent \<Rightarrow> bool" where
  reachable_New: "reachable (New\<lparr>NumberOfReplicas := r\<rparr>)"
| reachable_Add: "reachable c \<Longrightarrow> Add c element = Inr c' \<Longrightarrow> reachable c'"
| reachable_Remove: "reachable c \<Longrightarrow> Remove c element = Inr c' \<Longrightarrow> reachable c'"
| reachable_Set: "reachable c \<Longrightarrow> Set c elements = Inr c' \<Longrightarrow> reachable c'"

text \<open>
  The count is the number of registered nodes, and every registered node holds at
  least one position of the table. Neither is an invariant of the code: the first
  fails after a repeated \<open>Add\<close>, the second when the replica positions of a node
  have all been overwritten by those of another.
\<close>

definition countAccurate :: "Consistent \<Rightarrow> bool" where
  "countAccurate c \<longleftrightarrow> sint (count c) = int (length (members c))"

definition membersOnRing :: "Consistent \<Rightarrow> bool" where
  "membersOnRing c \<longleftrightarrow> fst ` set (members c) \<subseteq> snd ` set (circle c)"

text \<open>
  The position a query hash is served from, in the words of the search: the first
  position of the ascending list that is strictly greater than the hash and, when
  there is none, the first position of the list.
\<close>

definition successorPosition :: "uint32 list \<Rightarrow> uint32 \<Rightarrow> uint32 option" where
  "successorPosition xs h =
     (case find (\<lambda>p. h < p) xs of
        Some p \<Rightarrow> Some p
      | None \<Rightarrow> (case xs of [] \<Rightarrow> None | p # _ \<Rightarrow> Some p))"

text \<open>
  The walk of \<open>GetN\<close> in closed form: the nodes of the table in forward wrapping
  order from a start index, and the list of the first occurrences in a list, which is
  what appending every element not yet contained builds.
\<close>

definition appendIfNew :: "'a list \<Rightarrow> 'a \<Rightarrow> 'a list" where
  "appendIfNew res x = (if x \<in> set res then res else res @ [x])"

definition firstOccurrences :: "'a list \<Rightarrow> 'a list" where
  "firstOccurrences xs = foldl appendIfNew [] xs"

definition ringNodes :: "Consistent \<Rightarrow> WriteCloser option list" where
  "ringNodes c = map (\<lambda>p. map_of (circle c) p) (sortedHashes c)"

definition walkNodes :: "Consistent \<Rightarrow> nat \<Rightarrow> WriteCloser option list" where
  "walkNodes c start = rotate start (ringNodes c)"

text \<open>
  The rounds of the loop of \<open>GetN\<close> over a list of nodes: the result so far and whether
  the loop has reached \<open>n\<close> elements and stopped.
\<close>

fun walkUntil :: "int \<Rightarrow> 'a list \<Rightarrow> 'a list \<Rightarrow> 'a list \<times> bool" where
  "walkUntil n res [] = (res, False)"
| "walkUntil n res (x # xs) =
     (if int (length (appendIfNew res x)) = n then (appendIfNew res x, True)
      else walkUntil n (appendIfNew res x) xs)"

text \<open>
  The reconciliation of \<open>Set\<close> in the words of the spec: every current member that is
  not in the list is removed, then every listed node that is not already a member is
  added, once; nothing is done for the nodes already present.
\<close>

fun applyAll ::
  "(Consistent \<Rightarrow> WriteCloser \<Rightarrow> error + Consistent) \<Rightarrow> WriteCloser list \<Rightarrow> Consistent
     \<Rightarrow> error + Consistent" where
  "applyAll f [] c = Inr c"
| "applyAll f (x # xs) c = (case f c x of Inl e \<Rightarrow> Inl e | Inr c' \<Rightarrow> applyAll f xs c')"

definition Set_reconcile :: "Consistent \<Rightarrow> WriteCloser list \<Rightarrow> error + Consistent" where
  "Set_reconcile c elements =
     (case applyAll remove [k \<leftarrow> map fst (members c). k \<notin> set elements] c of
        Inl e \<Rightarrow> Inl e
      | Inr c' \<Rightarrow>
          applyAll add [v \<leftarrow> firstOccurrences elements. v \<notin> fst ` set (members c)] c')"

section \<open>Example rings\<close>

text \<open>
  Two nodes with different names, and the rings obtained from a new ring with one
  replica per node by adding them.
\<close>

definition nodeA :: WriteCloser where "nodeA = WriteCloser 1 ''a''"

definition nodeB :: WriteCloser where "nodeB = WriteCloser 2 ''b''"

definition ring0 :: Consistent where "ring0 = New\<lparr>NumberOfReplicas := 1\<rparr>"

definition ringA :: Consistent where
  "ringA = \<lparr>circle = [(2754246082, nodeA)], members = [(nodeA, True)],
            sortedHashes = [2754246082], NumberOfReplicas = 1, count = 1\<rparr>"

definition ringAB :: Consistent where
  "ringAB = \<lparr>circle = [(2754246082, nodeA), (1025713272, nodeB)],
             members = [(nodeA, True), (nodeB, True)],
             sortedHashes = [1025713272, 2754246082], NumberOfReplicas = 1, count = 2\<rparr>"

definition ringAA :: Consistent where
  "ringAA = \<lparr>circle = [(2754246082, nodeA)], members = [(nodeA, True)],
             sortedHashes = [2754246082], NumberOfReplicas = 1, count = 2\<rparr>"

definition ringB :: Consistent where
  "ringB = \<lparr>circle = [(1025713272, nodeB)], members = [(nodeB, True)],
            sortedHashes = [1025713272], NumberOfReplicas = 1, count = 1\<rparr>"

text \<open>
  A third node with a name of its own, and the ring that holds it beside the first.
\<close>

definition nodeC :: WriteCloser where "nodeC = WriteCloser 5 ''c''"

definition ringAC :: Consistent where
  "ringAC = \<lparr>circle = [(2754246082, nodeA), (1243878638, nodeC)],
             members = [(nodeA, True), (nodeC, True)],
             sortedHashes = [1243878638, 2754246082], NumberOfReplicas = 1, count = 2\<rparr>"

text \<open>
  Two nodes with different names whose replica positions collide: the names have
  the same IEEE CRC-32 after every replica index. The rings below start from a new
  ring with two replicas per node.
\<close>

definition nodeQ :: WriteCloser where "nodeQ = WriteCloser 3 ''Q895q''"

definition nodeM :: WriteCloser where "nodeM = WriteCloser 4 ''Mwe4e''"

definition ring2 :: Consistent where "ring2 = New\<lparr>NumberOfReplicas := 2\<rparr>"

definition ringQ :: Consistent where
  "ringQ = \<lparr>circle = [(735956280, nodeQ), (3766558365, nodeQ)], members = [(nodeQ, True)],
            sortedHashes = [735956280, 3766558365], NumberOfReplicas = 2, count = 1\<rparr>"

definition ringQ_emptied :: Consistent where
  "ringQ_emptied = \<lparr>circle = [], members = [(nodeQ, True)],
            sortedHashes = [], NumberOfReplicas = 2, count = 0\<rparr>"

definition ringQM :: Consistent where
  "ringQM = \<lparr>circle = [(735956280, nodeM), (3766558365, nodeM)],
             members = [(nodeQ, True), (nodeM, True)],
             sortedHashes = [735956280, 3766558365], NumberOfReplicas = 2, count = 2\<rparr>"

definition ringQQ :: Consistent where
  "ringQQ = \<lparr>circle = [(735956280, nodeQ), (3766558365, nodeQ)], members = [(nodeQ, True)],
             sortedHashes = [735956280, 3766558365], NumberOfReplicas = 2, count = 2\<rparr>"

text \<open>
  The same two colliding nodes added in the other order, and the state in which
  only the later one is registered while the position table is empty.
\<close>

definition ringM :: Consistent where
  "ringM = \<lparr>circle = [(735956280, nodeM), (3766558365, nodeM)], members = [(nodeM, True)],
            sortedHashes = [735956280, 3766558365], NumberOfReplicas = 2, count = 1\<rparr>"

definition ringMQ :: Consistent where
  "ringMQ = \<lparr>circle = [(735956280, nodeQ), (3766558365, nodeQ)],
             members = [(nodeM, True), (nodeQ, True)],
             sortedHashes = [735956280, 3766558365], NumberOfReplicas = 2, count = 2\<rparr>"

definition ringQ_stripped :: Consistent where
  "ringQ_stripped = \<lparr>circle = [], members = [(nodeQ, True)],
                 sortedHashes = [], NumberOfReplicas = 2, count = 1\<rparr>"

section \<open>Supporting lemmas\<close>

subsection \<open>The hash\<close>

lemma scratch_roundtrip:
  "length key < 64 \<Longrightarrow> take (length key) (copy (replicate 64 0) (bytes key)) = bytes key"
  by (simp add: copy_def bytes_def)

subsection \<open>Binary search\<close>

lemma Search_loop_unfold:
  "i < j \<Longrightarrow> Search_loop i j f =
     (if f ((i + j) div 2) then Search_loop i ((i + j) div 2) f
      else Search_loop ((i + j) div 2 + 1) j f)"
  by (subst Search_loop.simps) (simp add: Let_def)

lemma Search_loop_done: "\<not> i < j \<Longrightarrow> Search_loop i j f = i"
  by (subst Search_loop.simps) simp

lemma Search_loop_bounds: "i \<le> j \<Longrightarrow> i \<le> Search_loop i j f \<and> Search_loop i j f \<le> j"
proof (induction i j f rule: Search_loop.induct)
  case (1 i j f)
  let ?h = "(i + j) div 2"
  show ?case
  proof (cases "i < j")
    case False
    with "1.prems" show ?thesis by (simp add: Search_loop_done)
  next
    case True
    then have hb: "i \<le> ?h" "?h < j" by simp_all
    show ?thesis
    proof (cases "f ?h")
      case fh: True
      have "i \<le> Search_loop i ?h f \<and> Search_loop i ?h f \<le> ?h"
        by (rule "1.IH"(2)[OF True refl]) (use fh hb in simp_all)
      with hb fh True show ?thesis by (simp add: Search_loop_unfold)
    next
      case nfh: False
      have "?h + 1 \<le> Search_loop (?h + 1) j f \<and> Search_loop (?h + 1) j f \<le> j"
        by (rule "1.IH"(1)[OF True refl]) (use nfh hb in simp_all)
      with hb nfh True show ?thesis by (simp add: Search_loop_unfold)
    qed
  qed
qed

lemma Search_loop_least:
  assumes "i \<le> j" "j \<le> n"
    and "\<forall>k<i. \<not> f k" "\<forall>k. j \<le> k \<and> k < n \<longrightarrow> f k"
    and "\<forall>a b. a \<le> b \<and> b < n \<and> f a \<longrightarrow> f b"
  shows "(\<forall>k < Search_loop i j f. \<not> f k) \<and> (\<forall>k. Search_loop i j f \<le> k \<and> k < n \<longrightarrow> f k)"
  using assms
proof (induction i j f rule: Search_loop.induct)
  case (1 i j f)
  let ?h = "(i + j) div 2"
  note mono = "1.prems"(5)
  show ?case
  proof (cases "i < j")
    case False
    with "1.prems"(1) have "i = j" by simp
    with "1.prems"(3,4) show ?thesis by (simp add: Search_loop_done)
  next
    case True
    then have hb: "i \<le> ?h" "?h < j" by simp_all
    have hn: "?h < n" using hb "1.prems"(2) by simp
    show ?thesis
    proof (cases "f ?h")
      case fh: True
      have up: "\<forall>k. ?h \<le> k \<and> k < n \<longrightarrow> f k" using fh mono by blast
      have "(\<forall>k < Search_loop i ?h f. \<not> f k) \<and> (\<forall>k. Search_loop i ?h f \<le> k \<and> k < n \<longrightarrow> f k)"
        using fh hb(1) hn "1.prems"(3) up mono
        by (intro "1.IH"(2)[OF True refl]) simp_all
      with fh True show ?thesis by (simp add: Search_loop_unfold)
    next
      case nfh: False
      have low: "\<forall>k<?h + 1. \<not> f k"
      proof (intro allI impI)
        fix k assume "k < ?h + 1"
        then have "k \<le> ?h" by simp
        with nfh hn mono show "\<not> f k" by blast
      qed
      have "(\<forall>k < Search_loop (?h + 1) j f. \<not> f k) \<and> (\<forall>k. Search_loop (?h + 1) j f \<le> k \<and> k < n \<longrightarrow> f k)"
        using nfh hb(2) "1.prems"(2,4) low mono
        by (intro "1.IH"(1)[OF True refl]) simp_all
      with nfh True show ?thesis by (simp add: Search_loop_unfold)
    qed
  qed
qed

lemma Search_sorted:
  fixes xs :: "uint32 list" and key :: uint32
  assumes "sorted xs" and r_def: "r = Search (length xs) (\<lambda>x. key < xs ! x)"
  shows "r \<le> length xs" "\<forall>k<r. \<not> key < xs ! k" "\<forall>k. r \<le> k \<and> k < length xs \<longrightarrow> key < xs ! k"
proof -
  have mono: "\<forall>a b. a \<le> b \<and> b < length xs \<and> key < xs ! a \<longrightarrow> key < xs ! b"
  proof (intro allI impI)
    fix a b assume h: "a \<le> b \<and> b < length xs \<and> key < xs ! a"
    then have "xs ! a \<le> xs ! b" using assms(1) by (simp add: sorted_nth_mono)
    with h show "key < xs ! b" by (meson less_le_trans)
  qed
  show "r \<le> length xs"
    using Search_loop_bounds[of 0 "length xs" "\<lambda>x. key < xs ! x"] by (simp add: r_def Search_def)
  have a: "\<forall>k<0::nat. \<not> key < xs ! k" by simp
  have b: "\<forall>k. length xs \<le> k \<and> k < length xs \<longrightarrow> key < xs ! k" by (meson not_less)
  have "(\<forall>k < r. \<not> key < xs ! k) \<and> (\<forall>k. r \<le> k \<and> k < length xs \<longrightarrow> key < xs ! k)"
    unfolding r_def Search_def
    by (rule Search_loop_least[OF le0 le_refl a b mono])
  then show "\<forall>k<r. \<not> key < xs ! k" "\<forall>k. r \<le> k \<and> k < length xs \<longrightarrow> key < xs ! k"
    by simp_all
qed

lemma search_unfold:
  "search c key = (let i = Search (length (sortedHashes c)) (\<lambda>x. key < sortedHashes c ! x)
                   in if length (sortedHashes c) \<le> i then 0 else i)"
  by (simp add: search_def)

lemma search_successor:
  assumes "sorted (sortedHashes c)" "sortedHashes c \<noteq> []"
  shows "search c key < length (sortedHashes c) \<and>
         successorPosition (sortedHashes c) key = Some (sortedHashes c ! search c key)"
proof -
  define xs where "xs = sortedHashes c"
  define r where "r = Search (length xs) (\<lambda>x. key < xs ! x)"
  have sx: "sorted xs" using assms(1) by (simp add: xs_def)
  note S = Search_sorted[OF sx r_def]
  have sr: "search c key = (if length xs \<le> r then 0 else r)"
    unfolding search_unfold xs_def r_def Let_def ..
  have ne: "xs \<noteq> []" using assms(2) by (simp add: xs_def)
  have "search c key < length xs \<and> successorPosition xs key = Some (xs ! search c key)"
  proof (cases "r < length xs")
    case True
    have "find (\<lambda>p. key < p) xs = Some (xs ! r)"
      unfolding find_Some_iff using True S(2,3) by (intro exI[of _ r]) simp
    with True sr show ?thesis by (simp add: successorPosition_def)
  next
    case False
    have "\<forall>x\<in>set xs. \<not> key < x"
    proof
      fix x assume "x \<in> set xs"
      then obtain k where "k < length xs" "x = xs ! k" by (auto simp: in_set_conv_nth)
      with False S(1,2) show "\<not> key < x" by simp
    qed
    then have "find (\<lambda>p. key < p) xs = None" by (simp add: find_None_iff)
    with False sr ne show ?thesis
      by (cases xs) (simp_all add: successorPosition_def)
  qed
  then show ?thesis by (simp add: xs_def)
qed

subsection \<open>Mutations and the ring invariant\<close>

lemma foldl_update_map_of:
  "map_of (foldl (\<lambda>m i. AList.update (f i) x m) m is) p =
     (if p \<in> f ` set is then Some x else map_of m p)"
  by (induction "is" arbitrary: m) (auto simp: update_conv')

lemma foldl_update_keys:
  "fst ` set (foldl (\<lambda>m i. AList.update (f i) x m) m is) = fst ` set m \<union> f ` set is"
  by (induction "is" arbitrary: m) (auto simp: dom_update)

lemma foldl_update_distinct:
  "distinct (map fst m) \<Longrightarrow> distinct (map fst (foldl (\<lambda>m i. AList.update (f i) x m) m is))"
  by (induction "is" arbitrary: m) (auto simp: distinct_update)

lemma foldl_delete_filter:
  "foldl (\<lambda>m i. AList.delete (f i) m) m is = filter (\<lambda>kv. fst kv \<notin> f ` set is) m"
proof (induction "is" arbitrary: m)
  case Nil
  show ?case by simp
next
  case (Cons i "is")
  have "AList.delete (f i) m = filter (\<lambda>kv. fst kv \<noteq> f i) m"
    by (induction m) auto
  with Cons show ?case by (auto intro: filter_cong)
qed

lemma add_eq:
  "add c x =
     (if NumberOfReplicas c * 4 = 0 then Inl PanicDivideByZero
      else Inr \<lparr>circle = foldl (\<lambda>m i. AList.update (hashKey (elementKey x i)) x m)
                             (circle c) (replicaIndices c),
                members = AList.update x True (members c),
                sortedHashes = sort (map fst (foldl (\<lambda>m i. AList.update (hashKey (elementKey x i)) x m)
                             (circle c) (replicaIndices c))),
                NumberOfReplicas = NumberOfReplicas c,
                count = count c + 1\<rparr>)"
  by (simp add: add_def updateSortedHashes_def Let_def)

lemma remove_eq:
  "remove c x =
     (if NumberOfReplicas c * 4 = 0 then Inl PanicDivideByZero
      else Inr \<lparr>circle = filter (\<lambda>kv. fst kv \<notin> set (replicaPositions c x)) (circle c),
                members = filter (\<lambda>kv. fst kv \<noteq> x) (members c),
                sortedHashes = sort (map fst (filter (\<lambda>kv. fst kv \<notin> set (replicaPositions c x)) (circle c))),
                NumberOfReplicas = NumberOfReplicas c,
                count = count c - 1\<rparr>)"
proof -
  have d: "AList.delete x (members c) = filter (\<lambda>kv. fst kv \<noteq> x) (members c)"
    by (induction "members c") (auto simp: AList.delete_eq intro: filter_cong)
  show ?thesis
    by (simp add: remove_def updateSortedHashes_def Let_def foldl_delete_filter d
        replicaPositions_def)
qed

lemma replicaPositions_cong:
  "NumberOfReplicas c' = NumberOfReplicas c \<Longrightarrow> replicaPositions c' x = replicaPositions c x"
  by (simp add: replicaPositions_def replicaIndices_def)

lemma add_InrD:
  assumes "add c x = Inr c'"
  shows "NumberOfReplicas c * 4 \<noteq> 0"
    and "circle c' = foldl (\<lambda>m i. AList.update (hashKey (elementKey x i)) x m)
                             (circle c) (replicaIndices c)"
    and "members c' = AList.update x True (members c)"
    and "sortedHashes c' = sort (map fst (circle c'))"
    and "NumberOfReplicas c' = NumberOfReplicas c"
    and "count c' = count c + 1"
  using assms by (auto simp: add_eq split: if_splits)

lemma remove_InrD:
  assumes "remove c x = Inr c'"
  shows "NumberOfReplicas c * 4 \<noteq> 0"
    and "circle c' = filter (\<lambda>kv. fst kv \<notin> set (replicaPositions c x)) (circle c)"
    and "members c' = filter (\<lambda>kv. fst kv \<noteq> x) (members c)"
    and "sortedHashes c' = sort (map fst (circle c'))"
    and "NumberOfReplicas c' = NumberOfReplicas c"
    and "count c' = count c - 1"
  using assms by (auto simp: remove_eq split: if_splits)

lemma add_map_of_circle:
  assumes "add c x = Inr c'"
  shows "map_of (circle c') p =
           (if p \<in> set (replicaPositions c x) then Some x else map_of (circle c) p)"
  unfolding add_InrD(2)[OF assms] foldl_update_map_of
  by (simp add: replicaPositions_def)

lemma add_cacheConsistent:
  assumes "add c x = Inr c'" "distinct (map fst (circle c))"
  shows "cacheConsistent c'"
  using assms(2) add_InrD(4)[OF assms(1)]
  by (simp add: cacheConsistent_def add_InrD(2)[OF assms(1)] foldl_update_distinct)

lemma remove_cacheConsistent:
  assumes "remove c x = Inr c'" "distinct (map fst (circle c))"
  shows "cacheConsistent c'"
  using assms(2) remove_InrD(4)[OF assms(1)]
  by (simp add: cacheConsistent_def remove_InrD(2)[OF assms(1)] distinct_map_filter)

lemma add_ringInvariant:
  assumes "add c x = Inr c'" "ringInvariant c"
  shows "ringInvariant c'"
proof -
  note D = add_InrD[OF assms(1)]
  have dc: "distinct (map fst (circle c))" and dm: "distinct (map fst (members c))"
    and own: "tableOwned c"
    using assms(2) by (simp_all add: ringInvariant_def cacheConsistent_def)
  have cc: "cacheConsistent c'" by (rule add_cacheConsistent[OF assms(1) dc])
  have dm': "distinct (map fst (members c'))" using dm by (simp add: D(3) distinct_update)
  have mem: "fst ` set (members c') = insert x (fst ` set (members c))"
    by (simp add: D(3) dom_update)
  have "tableOwned c'"
    unfolding tableOwned_def
  proof (intro ballI, clarify)
    fix p y assume "(p, y) \<in> set (circle c')"
    with cc have "map_of (circle c') p = Some y" by (simp add: cacheConsistent_def)
    then have *: "(if p \<in> set (replicaPositions c x) then Some x else map_of (circle c) p) = Some y"
      by (simp add: add_map_of_circle[OF assms(1)])
    show "y \<in> fst ` set (members c') \<and> p \<in> set (replicaPositions c' y)"
    proof (cases "p \<in> set (replicaPositions c x)")
      case True
      with * have "y = x" by simp
      with True mem show ?thesis by (simp add: replicaPositions_cong[OF D(5)])
    next
      case False
      with * have "(p, y) \<in> set (circle c)" by (simp add: map_of_SomeD)
      with own have "y \<in> fst ` set (members c) \<and> p \<in> set (replicaPositions c y)"
        by (auto simp: tableOwned_def)
      with mem show ?thesis by (simp add: replicaPositions_cong[OF D(5)])
    qed
  qed
  with cc dm' show ?thesis by (simp add: ringInvariant_def)
qed

lemma remove_ringInvariant:
  assumes "remove c x = Inr c'" "ringInvariant c"
  shows "ringInvariant c'"
proof -
  note D = remove_InrD[OF assms(1)]
  have dc: "distinct (map fst (circle c))" and dm: "distinct (map fst (members c))"
    and own: "tableOwned c"
    using assms(2) by (simp_all add: ringInvariant_def cacheConsistent_def)
  have cc: "cacheConsistent c'" by (rule remove_cacheConsistent[OF assms(1) dc])
  have dm': "distinct (map fst (members c'))" using dm by (simp add: D(3) distinct_map_filter)
  have "tableOwned c'"
    unfolding tableOwned_def
  proof (intro ballI, clarify)
    fix p y assume "(p, y) \<in> set (circle c')"
    then have in_c: "(p, y) \<in> set (circle c)" and np: "p \<notin> set (replicaPositions c x)"
      by (simp_all add: D(2))
    from in_c own have o: "y \<in> fst ` set (members c)" "p \<in> set (replicaPositions c y)"
      by (auto simp: tableOwned_def)
    with np have "y \<noteq> x" by auto
    with o show "y \<in> fst ` set (members c') \<and> p \<in> set (replicaPositions c' y)"
      by (auto simp: D(3) replicaPositions_cong[OF D(5)])
  qed
  with cc dm' show ?thesis by (simp add: ringInvariant_def)
qed

lemma Set_remove_loop_ringInvariant:
  "Set_remove_loop elements ks c = Inr c' \<Longrightarrow> ringInvariant c \<Longrightarrow> ringInvariant c'"
proof (induction ks arbitrary: c)
  case Nil
  then show ?case by simp
next
  case (Cons k ks)
  show ?case
  proof (cases "k \<in> set elements")
    case True
    with Cons show ?thesis by simp
  next
    case False
    with Cons.prems(1) obtain c1 where r: "remove c k = Inr c1"
      and l: "Set_remove_loop elements ks c1 = Inr c'"
      by (auto split: sum.splits)
    from Cons.IH[OF l remove_ringInvariant[OF r Cons.prems(2)]] show ?thesis .
  qed
qed

lemma Set_add_loop_ringInvariant:
  "Set_add_loop vs c = Inr c' \<Longrightarrow> ringInvariant c \<Longrightarrow> ringInvariant c'"
proof (induction vs arbitrary: c)
  case Nil
  then show ?case by simp
next
  case (Cons v vs)
  show ?case
  proof (cases "map_of (members c) v \<noteq> None")
    case True
    with Cons show ?thesis by simp
  next
    case False
    with Cons.prems(1) obtain c1 where r: "add c v = Inr c1"
      and l: "Set_add_loop vs c1 = Inr c'"
      by (auto split: sum.splits)
    from Cons.IH[OF l add_ringInvariant[OF r Cons.prems(2)]] show ?thesis .
  qed
qed

lemma Set_ringInvariant:
  assumes "Set c elements = Inr c'" "ringInvariant c"
  shows "ringInvariant c'"
proof -
  from assms(1) obtain c1 where
    a: "Set_remove_loop elements (map fst (members c)) c = Inr c1"
    and b: "Set_add_loop elements c1 = Inr c'"
    by (auto simp: Set_def split: sum.splits)
  from Set_add_loop_ringInvariant[OF b Set_remove_loop_ringInvariant[OF a assms(2)]]
  show ?thesis .
qed

lemma reachable_ringInvariant: "reachable c \<Longrightarrow> ringInvariant c"
proof (induction rule: reachable.induct)
  case (reachable_New r)
  show ?case
    by (simp add: ringInvariant_def cacheConsistent_def tableOwned_def New_def)
next
  case (reachable_Add c element c')
  then show ?case by (simp add: Add_def add_ringInvariant)
next
  case (reachable_Remove c element c')
  then show ?case by (simp add: Remove_def remove_ringInvariant)
next
  case (reachable_Set c elements c')
  then show ?case by (simp add: Set_ringInvariant)
qed

subsection \<open>Lookups\<close>

lemma sortedHashes_keys:
  "cacheConsistent c \<Longrightarrow> set (sortedHashes c) = fst ` set (circle c)"
  by (simp add: cacheConsistent_def)

lemma sortedHashes_sorted: "cacheConsistent c \<Longrightarrow> sorted (sortedHashes c)"
  by (simp add: cacheConsistent_def)

lemma sortedHashes_nonempty: "cacheConsistent c \<Longrightarrow> circle c \<noteq> [] \<Longrightarrow> sortedHashes c \<noteq> []"
  using sortedHashes_keys[of c] by (cases "circle c") auto

lemma search_in_range:
  "cacheConsistent c \<Longrightarrow> circle c \<noteq> [] \<Longrightarrow> search c h < length (sortedHashes c)"
  using search_successor[OF sortedHashes_sorted sortedHashes_nonempty] by blast

lemma position_has_node:
  assumes "cacheConsistent c" "p \<in> set (sortedHashes c)"
  shows "\<exists>x. map_of (circle c) p = Some x \<and> (p, x) \<in> set (circle c)"
proof -
  from assms have "p \<in> fst ` set (circle c)" by (simp add: sortedHashes_keys)
  then obtain x where "(p, x) \<in> set (circle c)" by auto
  moreover from assms(1) have "distinct (map fst (circle c))" by (simp add: cacheConsistent_def)
  ultimately show ?thesis by auto
qed

lemma Get_successor:
  assumes "cacheConsistent c" "circle c \<noteq> []"
  shows "\<exists>p x. successorPosition (sortedHashes c) (hashKey key) = Some p \<and>
               p \<in> set (sortedHashes c) \<and> (p, x) \<in> set (circle c) \<and>
               map_of (circle c) p = Some x \<and> Get c key = Inr (Some x)"
proof -
  let ?i = "search c (hashKey key)"
  let ?p = "sortedHashes c ! ?i"
  from search_successor[OF sortedHashes_sorted[OF assms(1)] sortedHashes_nonempty[OF assms], of "hashKey key"]
  have i: "?i < length (sortedHashes c)"
    and s: "successorPosition (sortedHashes c) (hashKey key) = Some ?p" by simp_all
  from i have pin: "?p \<in> set (sortedHashes c)" by simp
  from position_has_node[OF assms(1) pin] obtain x where
    x: "map_of (circle c) ?p = Some x" "(?p, x) \<in> set (circle c)" by blast
  have "Get c key = Inr (Some x)"
    using assms(2) i x(1) by (simp add: Get_def Let_def)
  with s pin x show ?thesis by blast
qed

lemma successorPosition_props:
  assumes "successorPosition xs h = Some p" "sorted xs"
  shows "p \<in> set xs \<and>
         (if \<exists>q\<in>set xs. h < q then h < p \<and> (\<forall>q\<in>set xs. h < q \<longrightarrow> p \<le> q)
          else (\<forall>q\<in>set xs. p \<le> q))"
proof (cases "find (\<lambda>q. h < q) xs")
  case None
  then have no: "\<not> (\<exists>q\<in>set xs. h < q)" by (auto simp: find_None_iff)
  from None assms(1) obtain rest where xs: "xs = p # rest"
    by (cases xs) (simp_all add: successorPosition_def)
  with assms(2) have "\<forall>q\<in>set xs. p \<le> q" by auto
  with no xs show ?thesis by simp
next
  case (Some p')
  with assms(1) have pp: "p' = p" by (simp add: successorPosition_def)
  from Some[unfolded find_Some_iff] pp obtain i where
    i: "i < length xs" "h < xs ! i" "p = xs ! i" "\<forall>j<i. \<not> h < xs ! j" by blast
  have least: "\<forall>q\<in>set xs. h < q \<longrightarrow> p \<le> q"
  proof (intro ballI impI)
    fix q assume "q \<in> set xs" "h < q"
    then obtain j where j: "j < length xs" "q = xs ! j" by (auto simp: in_set_conv_nth)
    with \<open>h < q\<close> i(4) have "i \<le> j" by (meson not_less)
    with assms(2) j i(3) show "p \<le> q" by (simp add: sorted_nth_mono)
  qed
  from i have "p \<in> set xs" "h < p" by simp_all
  with least show ?thesis by auto
qed

lemma Get_node_at_search:
  assumes "cacheConsistent c" "circle c \<noteq> []"
  shows "\<exists>a. Get c key = Inr (Some a) \<and>
             map_of (circle c) (sortedHashes c ! search c (hashKey key)) = Some a \<and>
             (sortedHashes c ! search c (hashKey key), a) \<in> set (circle c)"
proof -
  note i = search_in_range[OF assms, of "hashKey key"]
  then have "sortedHashes c ! search c (hashKey key) \<in> set (sortedHashes c)" by simp
  from position_has_node[OF assms(1) this] obtain a where
    a: "map_of (circle c) (sortedHashes c ! search c (hashKey key)) = Some a"
       "(sortedHashes c ! search c (hashKey key), a) \<in> set (circle c)" by blast
  with assms(2) i have "Get c key = Inr (Some a)" by (simp add: Get_def Let_def)
  with a show ?thesis by blast
qed

lemma node_on_ring_index:
  assumes "cacheConsistent c" "y \<in> snd ` set (circle c)"
  shows "\<exists>j<length (sortedHashes c). map_of (circle c) (sortedHashes c ! j) = Some y"
proof -
  from assms(2) obtain q where q: "(q, y) \<in> set (circle c)" by auto
  with assms(1) have m: "map_of (circle c) q = Some y" by (simp add: cacheConsistent_def)
  from q have "q \<in> set (sortedHashes c)"
    by (auto simp: sortedHashes_keys[OF assms(1)] intro: rev_image_eqI)
  then obtain j where "j < length (sortedHashes c)" "sortedHashes c ! j = q"
    by (auto simp: in_set_conv_nth)
  with m show ?thesis by auto
qed

subsection \<open>Failures of the queries\<close>

lemma GetTwo_loop_no_error:
  assumes "GetTwo_loop c a start i b = Some r" "sortedHashes c \<noteq> []"
  shows "\<exists>b'. r = Inr b'"
proof -
  have "sortedHashes c \<noteq> [] \<longrightarrow> (\<exists>b'. r = Inr b')"
    by (rule GetTwo_loop.raw_induct[where P = "\<lambda>c a start i b r. sortedHashes c \<noteq> [] \<longrightarrow> (\<exists>b'. r = Inr b')",
          OF _ assms(1)])
       (auto simp: Let_def split: if_splits)
  with assms(2) show ?thesis by simp
qed

lemma GetN_loop_no_error:
  assumes "GetN_loop c n start i res = Some r" "sortedHashes c \<noteq> []"
  shows "\<exists>res'. r = Inr res'"
proof -
  have "sortedHashes c \<noteq> [] \<longrightarrow> (\<exists>res'. r = Inr res')"
    by (rule GetN_loop.raw_induct[where P = "\<lambda>c n start i res r. sortedHashes c \<noteq> [] \<longrightarrow> (\<exists>res'. r = Inr res')",
          OF _ assms(1)])
       (auto simp: Let_def split: if_splits)
  with assms(2) show ?thesis by simp
qed

lemma GetTwo_error:
  assumes "cacheConsistent c" "GetTwo c key = Some (Inl e)"
  shows "e = ErrEmptyCircle \<and> circle c = []"
proof (cases "circle c = []")
  case True
  with assms(2) show ?thesis by (simp add: GetTwo_def)
next
  case False
  note ne = sortedHashes_nonempty[OF assms(1) False]
  note i = search_in_range[OF assms(1) False, of "hashKey key"]
  from assms(2) False i obtain a where
    "GetTwo_loop c a (search c (hashKey key)) (search c (hashKey key) + 1) None = Some (Inl e)"
    by (auto simp: GetTwo_def Let_def split: if_splits option.splits sum.splits)
  from GetTwo_loop_no_error[OF this ne] show ?thesis by simp
qed

lemma GetN_error:
  assumes "cacheConsistent c" "GetN c key n = Some (Inl e)"
  shows "e = ErrEmptyCircle \<and> circle c = [] \<or>
         e = PanicMakeSliceCapOutOfRange \<and> circle c \<noteq> [] \<and> (sint n < 0 \<or> sint (count c) < 0)"
proof (cases "circle c = []")
  case True
  with assms(2) show ?thesis by (simp add: GetN_def)
next
  case False
  note ne = sortedHashes_nonempty[OF assms(1) False]
  note i = search_in_range[OF assms(1) False, of "hashKey key"]
  show ?thesis
  proof (cases "sint (if count c <s n then count c else n) < 0")
    case True
    with assms(2) False have "e = PanicMakeSliceCapOutOfRange" by (simp add: GetN_def Let_def)
    moreover from True have "sint n < 0 \<or> sint (count c) < 0" by (simp split: if_splits)
    ultimately show ?thesis using False by simp
  next
    case nn: False
    with assms(2) False i obtain m res where
      "GetN_loop c m (search c (hashKey key)) (search c (hashKey key) + 1) res = Some (Inl e)"
      by (auto simp: GetN_def Let_def split: if_splits)
    from GetN_loop_no_error[OF this ne] show ?thesis by simp
  qed
qed

subsection \<open>Removal\<close>

lemma map_of_filter_keys:
  "map_of (filter (\<lambda>kv. Q (fst kv)) l) k = (if Q k then map_of l k else None)"
  by (induction l) auto

lemma find_filter_Some:
  "find P xs = Some p \<Longrightarrow> Q p \<Longrightarrow> find P (filter Q xs) = Some p"
  by (induction xs) (auto split: if_splits)

lemma successorPosition_filter:
  assumes "successorPosition xs h = Some p" "Q p"
  shows "successorPosition (filter Q xs) h = Some p"
proof (cases "find (\<lambda>q. h < q) xs")
  case None
  then have "find (\<lambda>q. h < q) (filter Q xs) = None" by (auto simp: find_None_iff)
  moreover from None assms(1) obtain rest where "xs = p # rest"
    by (cases xs) (simp_all add: successorPosition_def)
  ultimately show ?thesis using assms(2) by (simp add: successorPosition_def)
next
  case (Some p')
  with assms(1) have "p' = p" by (simp add: successorPosition_def)
  with Some assms(2) have "find (\<lambda>q. h < q) (filter Q xs) = Some p"
    by (simp add: find_filter_Some)
  then show ?thesis by (simp add: successorPosition_def)
qed

lemma remove_sortedHashes:
  assumes "remove c x = Inr c'" "cacheConsistent c"
  shows "sortedHashes c' = filter (\<lambda>p. p \<notin> set (replicaPositions c x)) (sortedHashes c)"
proof -
  have "map fst (filter (\<lambda>kv. fst kv \<notin> set (replicaPositions c x)) (circle c)) =
        filter (\<lambda>p. p \<notin> set (replicaPositions c x)) (map fst (circle c))"
    by (simp add: filter_map comp_def)
  with assms(2) show ?thesis
    by (simp add: remove_InrD(4)[OF assms(1)] remove_InrD(2)[OF assms(1)]
        cacheConsistent_def filter_sort)
qed

lemma Get_depends_on_table:
  "circle c' = circle c \<Longrightarrow> sortedHashes c' = sortedHashes c \<Longrightarrow> Get c' key = Get c key"
  by (simp add: Get_def search_def Let_def)

lemma Remove_keeps_other_nodes_key:
  assumes "cacheConsistent c"
    and "\<forall>p\<in>set (replicaPositions c b). map_of (circle c) p = None \<or> map_of (circle c) p = Some b"
    and "Get c key = Inr (Some a)"
    and "a \<noteq> b"
    and "Remove c b = Inr c'"
  shows "Get c' key = Inr (Some a)"
proof -
  let ?keep = "\<lambda>p. p \<notin> set (replicaPositions c b)"
  from assms(5) have r: "remove c b = Inr c'" by (simp add: Remove_def)
  note D = remove_InrD[OF r]
  from assms(3) have ne: "circle c \<noteq> []" by (auto simp: Get_def split: if_splits)
  from Get_successor[OF assms(1) ne, of key] assms(3) obtain p where
    s: "successorPosition (sortedHashes c) (hashKey key) = Some p"
    and pa: "(p, a) \<in> set (circle c)" "map_of (circle c) p = Some a" by auto
  from pa(2) assms(2,4) have keep: "?keep p" by auto
  from assms(1) have dc: "distinct (map fst (circle c))" by (simp add: cacheConsistent_def)
  have cc': "cacheConsistent c'" by (rule remove_cacheConsistent[OF r dc])
  from pa(1) keep have "(p, a) \<in> set (circle c')" by (simp add: D(2))
  then have ne': "circle c' \<noteq> []" by auto
  have s': "successorPosition (sortedHashes c') (hashKey key) = Some p"
    unfolding remove_sortedHashes[OF r assms(1)]
    using successorPosition_filter[where Q = ?keep, OF s] keep by simp
  have m': "map_of (circle c') p = Some a"
    using keep pa(2) map_of_filter_keys[where Q = ?keep, of "circle c" p] by (simp add: D(2))
  from Get_successor[OF cc' ne', of key] s' m' show ?thesis by auto
qed

lemma collision_free_positions:
  assumes "ringInvariant c"
    and "\<forall>x\<in>fst ` set (members c). x \<noteq> b \<longrightarrow>
           set (replicaPositions c x) \<inter> set (replicaPositions c b) = {}"
  shows "\<forall>p\<in>set (replicaPositions c b). map_of (circle c) p = None \<or> map_of (circle c) p = Some b"
proof
  fix p assume p: "p \<in> set (replicaPositions c b)"
  show "map_of (circle c) p = None \<or> map_of (circle c) p = Some b"
  proof (cases "map_of (circle c) p")
    case None
    then show ?thesis by simp
  next
    case (Some x)
    then have "(p, x) \<in> set (circle c)" by (rule map_of_SomeD)
    with assms(1) have x: "x \<in> fst ` set (members c)" "p \<in> set (replicaPositions c x)"
      by (auto simp: ringInvariant_def tableOwned_def)
    with p assms(2) have "x = b" by auto
    with Some show ?thesis by simp
  qed
qed

subsection \<open>The loop of GetTwo\<close>

lemma GetTwo_loop_step:
  assumes "i \<noteq> start" "i < length (sortedHashes c)"
  shows "GetTwo_loop c a start i b =
           (if map_of (circle c) (sortedHashes c ! i) \<noteq> a
            then Some (Inr (map_of (circle c) (sortedHashes c ! i)))
            else GetTwo_loop c a start (i + 1) (map_of (circle c) (sortedHashes c ! i)))"
  using assms by (subst GetTwo_loop.simps) (simp add: Let_def)

lemma GetTwo_loop_wrap:
  assumes "length (sortedHashes c) \<noteq> start" "0 < length (sortedHashes c)"
  shows "GetTwo_loop c a start (length (sortedHashes c)) b =
           (if map_of (circle c) (sortedHashes c ! 0) \<noteq> a
            then Some (Inr (map_of (circle c) (sortedHashes c ! 0)))
            else GetTwo_loop c a start 1 (map_of (circle c) (sortedHashes c ! 0)))"
  using assms by (subst GetTwo_loop.simps) (simp add: Let_def)

lemma GetTwo_loop_stop: "GetTwo_loop c a start start b = Some (Inr b)"
  by (subst GetTwo_loop.simps) simp

text \<open>Above the start index: the first position holding another node ends the loop.\<close>

lemma GetTwo_loop_finds_above:
  assumes "start < i" "i \<le> j" "j < length (sortedHashes c)"
    and "map_of (circle c) (sortedHashes c ! j) \<noteq> a"
  shows "\<exists>k. k < length (sortedHashes c) \<and> map_of (circle c) (sortedHashes c ! k) \<noteq> a \<and>
             GetTwo_loop c a start i b = Some (Inr (map_of (circle c) (sortedHashes c ! k)))"
  using assms
proof (induction "j - i" arbitrary: i b)
  case 0
  then have "i = j" by simp
  with "0.prems" show ?case by (intro exI[of _ j]) (simp add: GetTwo_loop_step)
next
  case (Suc d)
  then have ij: "i < j" by simp
  show ?case
  proof (cases "map_of (circle c) (sortedHashes c ! i) \<noteq> a")
    case True
    with Suc.prems ij show ?thesis by (intro exI[of _ i]) (simp add: GetTwo_loop_step)
  next
    case False
    have "\<exists>k. k < length (sortedHashes c) \<and> map_of (circle c) (sortedHashes c ! k) \<noteq> a \<and>
             GetTwo_loop c a start (i + 1) (map_of (circle c) (sortedHashes c ! i))
               = Some (Inr (map_of (circle c) (sortedHashes c ! k)))"
      using Suc.hyps(2) Suc.prems ij by (intro Suc.hyps(1)) simp_all
    moreover have "GetTwo_loop c a start i b =
        GetTwo_loop c a start (i + 1) (map_of (circle c) (sortedHashes c ! i))"
      using False Suc.prems ij by (simp add: GetTwo_loop_step)
    ultimately show ?thesis by simp
  qed
qed

text \<open>Above the start index with no other node up to the end: the loop reaches the wrap.\<close>

lemma GetTwo_loop_reaches_end:
  assumes "start < i" "i \<le> length (sortedHashes c)"
    and "\<forall>j. i \<le> j \<and> j < length (sortedHashes c) \<longrightarrow> map_of (circle c) (sortedHashes c ! j) = a"
  shows "\<exists>b'. GetTwo_loop c a start i b = GetTwo_loop c a start (length (sortedHashes c)) b'"
  using assms
proof (induction "length (sortedHashes c) - i" arbitrary: i b)
  case 0
  then have "i = length (sortedHashes c)" by simp
  then show ?case by blast
next
  case (Suc d)
  then have il: "i < length (sortedHashes c)" by simp
  with Suc.prems have "map_of (circle c) (sortedHashes c ! i) = a" by simp
  with il Suc.prems(1) have "GetTwo_loop c a start i b = GetTwo_loop c a start (i + 1) a"
    by (simp add: GetTwo_loop_step)
  moreover have "\<exists>b'. GetTwo_loop c a start (i + 1) a =
                      GetTwo_loop c a start (length (sortedHashes c)) b'"
    using Suc.hyps(2) Suc.prems il by (intro Suc.hyps(1)) simp_all
  ultimately show ?case by simp
qed

text \<open>Below the start index: the first position holding another node ends the loop.\<close>

lemma GetTwo_loop_finds_below:
  assumes "i \<le> j" "j < start" "start \<le> length (sortedHashes c)"
    and "map_of (circle c) (sortedHashes c ! j) \<noteq> a"
  shows "\<exists>k. k < length (sortedHashes c) \<and> map_of (circle c) (sortedHashes c ! k) \<noteq> a \<and>
             GetTwo_loop c a start i b = Some (Inr (map_of (circle c) (sortedHashes c ! k)))"
  using assms
proof (induction "j - i" arbitrary: i b)
  case 0
  then have "i = j" by simp
  with "0.prems" show ?case by (intro exI[of _ j]) (simp add: GetTwo_loop_step)
next
  case (Suc d)
  then have ij: "i < j" by simp
  show ?case
  proof (cases "map_of (circle c) (sortedHashes c ! i) \<noteq> a")
    case True
    with Suc.prems ij show ?thesis by (intro exI[of _ i]) (simp add: GetTwo_loop_step)
  next
    case False
    have "\<exists>k. k < length (sortedHashes c) \<and> map_of (circle c) (sortedHashes c ! k) \<noteq> a \<and>
             GetTwo_loop c a start (i + 1) (map_of (circle c) (sortedHashes c ! i))
               = Some (Inr (map_of (circle c) (sortedHashes c ! k)))"
      using Suc.hyps(2) Suc.prems ij by (intro Suc.hyps(1)) simp_all
    moreover have "GetTwo_loop c a start i b =
        GetTwo_loop c a start (i + 1) (map_of (circle c) (sortedHashes c ! i))"
      using False Suc.prems ij by (simp add: GetTwo_loop_step)
    ultimately show ?thesis by simp
  qed
qed

text \<open>
  When some position holds a node other than the one at the start index, the loop
  entered after the start index ends with such a node.
\<close>

lemma GetTwo_loop_finds:
  assumes st: "start < length (sortedHashes c)"
    and a: "a = map_of (circle c) (sortedHashes c ! start)"
    and other: "j < length (sortedHashes c)" "map_of (circle c) (sortedHashes c ! j) \<noteq> a"
  shows "\<exists>k. k < length (sortedHashes c) \<and> map_of (circle c) (sortedHashes c ! k) \<noteq> a \<and>
             GetTwo_loop c a start (start + 1) b = Some (Inr (map_of (circle c) (sortedHashes c ! k)))"
proof (cases "\<exists>j. start + 1 \<le> j \<and> j < length (sortedHashes c) \<and>
                  map_of (circle c) (sortedHashes c ! j) \<noteq> a")
  case True
  then obtain j' where "start + 1 \<le> j'" "j' < length (sortedHashes c)"
    "map_of (circle c) (sortedHashes c ! j') \<noteq> a" by blast
  then show ?thesis by (intro GetTwo_loop_finds_above[where j = j']) simp_all
next
  case False
  then have all: "\<forall>j. start + 1 \<le> j \<and> j < length (sortedHashes c) \<longrightarrow>
                     map_of (circle c) (sortedHashes c ! j) = a" by blast
  from other a have "j \<noteq> start" by auto
  with all other have js: "j < start" by (metis Suc_eq_plus1 Suc_leI linorder_neqE_nat)
  from GetTwo_loop_reaches_end[where i = "start + 1" and b = b, OF _ _ all] st
  obtain b' where e: "GetTwo_loop c a start (start + 1) b =
                      GetTwo_loop c a start (length (sortedHashes c)) b'" by auto
  have w: "GetTwo_loop c a start (length (sortedHashes c)) b' =
           (if map_of (circle c) (sortedHashes c ! 0) \<noteq> a
            then Some (Inr (map_of (circle c) (sortedHashes c ! 0)))
            else GetTwo_loop c a start 1 (map_of (circle c) (sortedHashes c ! 0)))"
    using st by (intro GetTwo_loop_wrap) auto
  show ?thesis
  proof (cases "map_of (circle c) (sortedHashes c ! 0) \<noteq> a")
    case True
    with e w st show ?thesis by (intro exI[of _ 0]) auto
  next
    case False
    have "j \<noteq> 0"
    proof
      assume "j = 0"
      with other(2) False show False by simp
    qed
    then have "1 \<le> j" by simp
    from GetTwo_loop_finds_below[where b = "map_of (circle c) (sortedHashes c ! 0)", OF this js _ other(2)] st
    obtain k where "k < length (sortedHashes c)" "map_of (circle c) (sortedHashes c ! k) \<noteq> a"
      "GetTwo_loop c a start 1 (map_of (circle c) (sortedHashes c ! 0))
         = Some (Inr (map_of (circle c) (sortedHashes c ! k)))" by auto
    with e w False show ?thesis by (intro exI[of _ k]) simp
  qed
qed

lemma other_member:
  assumes "distinct (map fst ms)" "2 \<le> length ms"
  shows "\<exists>y\<in>fst ` set ms. y \<noteq> a"
proof -
  from assms(2) obtain u v rest where ms: "ms = u # v # rest"
    by (cases ms; cases "tl ms") auto
  with assms(1) have "fst u \<noteq> fst v" by auto
  then have "fst u \<noteq> a \<or> fst v \<noteq> a" by auto
  with ms show ?thesis by auto
qed

lemma sint_eq_1: "sint (w :: int64) = 1 \<longleftrightarrow> w = 1"
proof
  assume "sint w = 1"
  then have "sint w = sint (1 :: int64)" by simp
  then show "w = 1" by (rule signed_word_eqI)
qed simp

subsection \<open>The loop of GetN\<close>

lemma sliceContainsMember_set: "sliceContainsMember res x \<longleftrightarrow> x \<in> set res"
  by (induction res) auto

lemma ringNodes_nth: "i < length (sortedHashes c) \<Longrightarrow> ringNodes c ! i = map_of (circle c) (sortedHashes c ! i)"
  by (simp add: ringNodes_def)

lemma length_ringNodes: "length (ringNodes c) = length (sortedHashes c)"
  by (simp add: ringNodes_def)

lemma GetN_loop_step:
  assumes "i \<noteq> start" "i < length (sortedHashes c)"
  shows "GetN_loop c n start i res =
           (if int (length (appendIfNew res (ringNodes c ! i))) = sint n
            then Some (Inr (appendIfNew res (ringNodes c ! i)))
            else GetN_loop c n start (i + 1) (appendIfNew res (ringNodes c ! i)))"
  using assms
  by (subst GetN_loop.simps)
     (simp add: Let_def sliceContainsMember_set appendIfNew_def ringNodes_nth)

lemma GetN_loop_wrap:
  assumes "length (sortedHashes c) \<noteq> start" "0 < length (sortedHashes c)"
  shows "GetN_loop c n start (length (sortedHashes c)) res =
           (if int (length (appendIfNew res (ringNodes c ! 0))) = sint n
            then Some (Inr (appendIfNew res (ringNodes c ! 0)))
            else GetN_loop c n start 1 (appendIfNew res (ringNodes c ! 0)))"
  using assms
  by (subst GetN_loop.simps)
     (simp add: Let_def sliceContainsMember_set appendIfNew_def ringNodes_nth)

lemma GetN_loop_stop: "GetN_loop c n start start res = Some (Inr res)"
  by (subst GetN_loop.simps) simp

text \<open>Above the start index the loop runs as \<open>walkUntil\<close> over the rest of the ring.\<close>

lemma GetN_loop_above:
  assumes "start < i" "i \<le> length (sortedHashes c)"
  shows "GetN_loop c n start i res =
           (case walkUntil (sint n) res (drop i (ringNodes c)) of
              (r, True) \<Rightarrow> Some (Inr r)
            | (r, False) \<Rightarrow> GetN_loop c n start (length (sortedHashes c)) r)"
  using assms
proof (induction "length (sortedHashes c) - i" arbitrary: i res)
  case 0
  then show ?case by (simp add: length_ringNodes)
next
  case (Suc d)
  then have il: "i < length (sortedHashes c)" by simp
  then have dr: "drop i (ringNodes c) = ringNodes c ! i # drop (Suc i) (ringNodes c)"
    by (simp add: Cons_nth_drop_Suc length_ringNodes)
  have IH: "GetN_loop c n start (Suc i) res' =
           (case walkUntil (sint n) res' (drop (Suc i) (ringNodes c)) of
              (r, True) \<Rightarrow> Some (Inr r)
            | (r, False) \<Rightarrow> GetN_loop c n start (length (sortedHashes c)) r)" for res'
    using Suc.hyps(2) Suc.prems il by (intro Suc.hyps(1)) simp_all
  from Suc.prems(1) il show ?case
    by (simp add: GetN_loop_step dr IH)
qed

text \<open>Below the start index it runs as \<open>walkUntil\<close> up to the start index and returns.\<close>

lemma GetN_loop_below:
  assumes "i \<le> start" "start \<le> length (sortedHashes c)"
  shows "GetN_loop c n start i res =
           Some (Inr (fst (walkUntil (sint n) res (take (start - i) (drop i (ringNodes c))))))"
  using assms
proof (induction "start - i" arbitrary: i res)
  case 0
  then show ?case by (simp add: GetN_loop_stop)
next
  case (Suc d)
  then have lt: "i < start" by simp
  with Suc.prems have il: "i < length (sortedHashes c)" by simp
  then have dr: "drop i (ringNodes c) = ringNodes c ! i # drop (Suc i) (ringNodes c)"
    by (simp add: Cons_nth_drop_Suc length_ringNodes)
  from lt have tk: "start - i = Suc (start - Suc i)" by simp
  have IH: "GetN_loop c n start (Suc i) res' =
      Some (Inr (fst (walkUntil (sint n) res' (take (start - Suc i) (drop (Suc i) (ringNodes c))))))"
    for res'
    using Suc.hyps(2) Suc.prems lt by (intro Suc.hyps(1)) simp_all
  have "take (start - i) (drop i (ringNodes c)) =
        ringNodes c ! i # take (start - Suc i) (drop (Suc i) (ringNodes c))"
    by (subst tk, subst dr) simp
  with lt il show ?case
    by (simp add: GetN_loop_step IH)
qed

lemma walkUntil_append:
  "walkUntil n res (xs @ ys) =
     (case walkUntil n res xs of (r, True) \<Rightarrow> (r, True) | (r, False) \<Rightarrow> walkUntil n r ys)"
  by (induction xs arbitrary: res) auto

text \<open>
  When the walk over the rest of the ring, once around, reaches \<open>n\<close> elements, the
  loop entered after the start index returns them.
\<close>

lemma GetN_loop_returns:
  assumes st: "start < length (sortedHashes c)"
    and w: "walkUntil (sint n) res (drop (start + 1) (ringNodes c) @ take start (ringNodes c)) = (r, True)"
  shows "GetN_loop c n start (start + 1) res = Some (Inr r)"
proof -
  obtain r1 f1 where w1: "walkUntil (sint n) res (drop (start + 1) (ringNodes c)) = (r1, f1)"
    by (cases "walkUntil (sint n) res (drop (start + 1) (ringNodes c))")
  have above: "GetN_loop c n start (start + 1) res =
           (case walkUntil (sint n) res (drop (start + 1) (ringNodes c)) of
              (r, True) \<Rightarrow> Some (Inr r)
            | (r, False) \<Rightarrow> GetN_loop c n start (length (sortedHashes c)) r)"
    using st by (intro GetN_loop_above) simp_all
  show ?thesis
  proof (cases f1)
    case True
    with w w1 have "r1 = r" by (simp add: walkUntil_append)
    with above w1 True show ?thesis by simp
  next
    case False
    with w w1 have w2: "walkUntil (sint n) r1 (take start (ringNodes c)) = (r, True)"
      by (simp add: walkUntil_append)
    then have s0: "0 < start" by (cases start) auto
    have tk: "take start (ringNodes c) = ringNodes c ! 0 # take (start - 1) (drop 1 (ringNodes c))"
    proof -
      from st have "0 < length (ringNodes c)" by (auto simp: length_ringNodes)
      then obtain x rest where rn: "ringNodes c = x # rest" by (cases "ringNodes c") auto
      from s0 obtain s' where "start = Suc s'" by (cases start) auto
      with rn show ?thesis by simp
    qed
    have wrap: "GetN_loop c n start (length (sortedHashes c)) r1 =
           (if int (length (appendIfNew r1 (ringNodes c ! 0))) = sint n
            then Some (Inr (appendIfNew r1 (ringNodes c ! 0)))
            else GetN_loop c n start 1 (appendIfNew r1 (ringNodes c ! 0)))"
      using st by (intro GetN_loop_wrap) auto
    have below: "GetN_loop c n start 1 res' =
        Some (Inr (fst (walkUntil (sint n) res' (take (start - 1) (drop 1 (ringNodes c))))))" for res'
      using s0 st by (intro GetN_loop_below) simp_all
    from above w1 False have "GetN_loop c n start (start + 1) res =
        GetN_loop c n start (length (sortedHashes c)) r1" by simp
    also have "\<dots> = Some (Inr r)"
      using w2 unfolding tk wrap below by (auto split: if_splits)
    finally show ?thesis .
  qed
qed

subsection \<open>First occurrences and the closed form of GetN\<close>

lemma appendIfNew_old: "x \<in> set res \<Longrightarrow> appendIfNew res x = res"
  by (simp add: appendIfNew_def)

lemma appendIfNew_new: "x \<notin> set res \<Longrightarrow> appendIfNew res x = res @ [x]"
  by (simp add: appendIfNew_def)

lemma foldl_appendIfNew_prefix: "\<exists>ys. foldl appendIfNew res xs = res @ ys"
proof (induction xs arbitrary: res)
  case Nil
  show ?case by simp
next
  case (Cons x xs)
  from Cons[of "appendIfNew res x"] obtain ys where
    "foldl appendIfNew (appendIfNew res x) xs = appendIfNew res x @ ys" by blast
  then show ?case by (cases "x \<in> set res") (simp_all add: appendIfNew_old appendIfNew_new)
qed

lemma foldl_appendIfNew_distinct:
  "distinct res \<Longrightarrow> distinct (foldl appendIfNew res xs)"
proof (induction xs arbitrary: res)
  case Nil
  then show ?case by simp
next
  case (Cons x xs)
  from Cons.prems have "distinct (appendIfNew res x)"
    by (cases "x \<in> set res") (simp_all add: appendIfNew_old appendIfNew_new)
  from Cons.IH[OF this] show ?case by simp
qed

lemma foldl_appendIfNew_set: "set (foldl appendIfNew res xs) = set res \<union> set xs"
proof (induction xs arbitrary: res)
  case Nil
  show ?case by simp
next
  case (Cons x xs)
  have "set (appendIfNew res x) = insert x (set res)"
    by (cases "x \<in> set res") (auto simp: appendIfNew_old appendIfNew_new)
  with Cons[of "appendIfNew res x"] show ?case by simp
qed

lemma length_appendIfNew: "length (appendIfNew res x) \<le> Suc (length res)"
  by (cases "x \<in> set res") (simp_all add: appendIfNew_old appendIfNew_new)

lemma walkUntil_closed_form:
  assumes "int (length res) < n"
  shows "walkUntil n res xs =
           (if n \<le> int (length (foldl appendIfNew res xs))
            then (take (nat n) (foldl appendIfNew res xs), True)
            else (foldl appendIfNew res xs, False))"
  using assms
proof (induction xs arbitrary: res)
  case Nil
  then show ?case by simp
next
  case (Cons x xs)
  let ?r = "appendIfNew res x"
  from foldl_appendIfNew_prefix[of ?r xs] obtain ys where
    ys: "foldl appendIfNew ?r xs = ?r @ ys" by blast
  show ?case
  proof (cases "int (length ?r) = n")
    case True
    then have "nat n = length ?r" by simp
    with True ys show ?thesis by simp
  next
    case False
    with Cons.prems length_appendIfNew[of res x] have "int (length ?r) < n" by simp
    from Cons.IH[OF this] False show ?thesis by simp
  qed
qed

lemma firstOccurrences_Cons: "firstOccurrences (x # xs) = foldl appendIfNew [x] xs"
  by (simp add: firstOccurrences_def appendIfNew_new)

lemma firstOccurrences_distinct: "distinct (firstOccurrences xs)"
  by (simp add: firstOccurrences_def foldl_appendIfNew_distinct)

lemma firstOccurrences_set: "set (firstOccurrences xs) = set xs"
  by (simp add: firstOccurrences_def foldl_appendIfNew_set)

lemma firstOccurrences_length: "length (firstOccurrences xs) = card (set xs)"
  using distinct_card[OF firstOccurrences_distinct, of xs] by (simp add: firstOccurrences_set)

lemma walkNodes_unfold:
  assumes "start < length (sortedHashes c)"
  shows "walkNodes c start =
           ringNodes c ! start # (drop (start + 1) (ringNodes c) @ take start (ringNodes c))"
proof -
  from assms have "start < length (ringNodes c)" by (simp add: length_ringNodes)
  then have "rotate start (ringNodes c) = drop start (ringNodes c) @ take start (ringNodes c)"
    by (simp add: rotate_drop_take)
  moreover from \<open>start < length (ringNodes c)\<close>
  have "drop start (ringNodes c) = ringNodes c ! start # drop (start + 1) (ringNodes c)"
    by (simp add: Cons_nth_drop_Suc)
  ultimately show ?thesis by (simp add: walkNodes_def)
qed

lemma set_ringNodes:
  assumes "cacheConsistent c"
  shows "set (ringNodes c) = Some ` snd ` set (circle c)"
proof
  show "set (ringNodes c) \<subseteq> Some ` snd ` set (circle c)"
  proof
    fix v assume "v \<in> set (ringNodes c)"
    then obtain p where p: "p \<in> set (sortedHashes c)" "v = map_of (circle c) p"
      by (auto simp: ringNodes_def)
    from position_has_node[OF assms p(1)] p(2) show "v \<in> Some ` snd ` set (circle c)"
      by (auto intro: rev_image_eqI)
  qed
  show "Some ` snd ` set (circle c) \<subseteq> set (ringNodes c)"
  proof
    fix v assume "v \<in> Some ` snd ` set (circle c)"
    then obtain y where y: "y \<in> snd ` set (circle c)" "v = Some y" by auto
    from node_on_ring_index[OF assms y(1)] obtain j where
      j: "j < length (sortedHashes c)" "map_of (circle c) (sortedHashes c ! j) = Some y" by blast
    then have "ringNodes c ! j = v" by (simp add: ringNodes_nth y(2))
    moreover from j(1) have "j < length (ringNodes c)" by (simp add: length_ringNodes)
    ultimately show "v \<in> set (ringNodes c)" by (auto simp: in_set_conv_nth)
  qed
qed

lemma ring_holds_members:
  assumes "ringInvariant c" "membersOnRing c"
  shows "snd ` set (circle c) = fst ` set (members c)"
  using assms by (auto simp: ringInvariant_def tableOwned_def membersOnRing_def)

lemma card_ringNodes:
  assumes "ringInvariant c" "membersOnRing c"
  shows "card (set (ringNodes c)) = length (members c)"
proof -
  from assms(1) have cc: "cacheConsistent c" and dm: "distinct (map fst (members c))"
    by (simp_all add: ringInvariant_def)
  have "card (set (ringNodes c)) = card (fst ` set (members c))"
    by (simp add: set_ringNodes[OF cc] ring_holds_members[OF assms] card_image)
  also have "\<dots> = length (members c)"
    using distinct_card[OF dm] by simp
  finally show ?thesis .
qed

lemma sint_min_count:
  "sint (if (cnt :: int64) <s n then cnt else n) = min (sint n) (sint cnt)"
  by (auto simp: word_sless_alt)

lemma GetN_closed_form:
  assumes inv: "ringInvariant c" and ne: "circle c \<noteq> []"
    and cnt: "countAccurate c" and on: "membersOnRing c" and n1: "1 \<le> sint n"
    and full_def: "full = firstOccurrences (walkNodes c (search c (hashKey key)))"
    and m_def: "m = min (sint n) (int (length (members c)))"
  shows "length full = length (members c)"
    and "set full = Some ` fst ` set (members c)"
    and "\<exists>a ys. Get c key = Inr (Some a) \<and> full = Some a # ys"
    and "1 \<le> m"
    and "GetN c key n = Some (Inr (take (nat m) full))"
proof -
  let ?i = "search c (hashKey key)"
  let ?rest = "drop (?i + 1) (ringNodes c) @ take ?i (ringNodes c)"
  from inv have cc: "cacheConsistent c" and own: "tableOwned c"
    by (simp_all add: ringInvariant_def)
  note i = search_in_range[OF cc ne, of "hashKey key"]
  from Get_node_at_search[OF cc ne, of key] obtain a where
    g: "Get c key = Inr (Some a)" and na: "map_of (circle c) (sortedHashes c ! ?i) = Some a"
    and ina: "(sortedHashes c ! ?i, a) \<in> set (circle c)" by blast
  from ina own have "a \<in> fst ` set (members c)" by (auto simp: tableOwned_def)
  then have d1: "1 \<le> length (members c)" by (cases "members c") auto
  have walk: "walkNodes c ?i = Some a # ?rest"
    using walkNodes_unfold[OF i] na i by (simp add: ringNodes_nth)
  have full: "full = foldl appendIfNew [Some a] ?rest"
    unfolding full_def walk by (rule firstOccurrences_Cons)
  from foldl_appendIfNew_prefix[of "[Some a]" ?rest] obtain ys where
    ys: "full = Some a # ys" unfolding full by auto
  have sw: "set (walkNodes c ?i) = set (ringNodes c)" by (simp add: walkNodes_def)
  show len: "length full = length (members c)"
    by (simp add: full_def firstOccurrences_length sw card_ringNodes[OF inv on])
  show "set full = Some ` fst ` set (members c)"
    by (simp add: full_def firstOccurrences_set sw set_ringNodes[OF cc]
        ring_holds_members[OF inv on])
  from g ys show "\<exists>a ys. Get c key = Inr (Some a) \<and> full = Some a # ys" by blast
  from n1 d1 show m1: "1 \<le> m" by (simp add: m_def)
  have sn: "sint (if count c <s n then count c else n) = m"
    using cnt by (simp only: sint_min_count m_def countAccurate_def)
  show "GetN c key n = Some (Inr (take (nat m) full))"
  proof (cases "m = 1")
    case True
    then have "take (nat m) full = [Some a]" by (simp add: ys)
    with ne i na sn True show ?thesis by (simp add: GetN_def Let_def)
  next
    case False
    with m1 have m2: "int (length [Some a]) < m" by simp
    have "m \<le> int (length full)" by (simp add: len m_def)
    with walkUntil_closed_form[OF m2, of ?rest]
    have "walkUntil (sint (if count c <s n then count c else n)) [Some a] ?rest =
            (take (nat m) full, True)"
      by (simp add: sn full)
    from GetN_loop_returns[OF i this]
    have "GetN_loop c (if count c <s n then count c else n) ?i (?i + 1) [Some a] =
            Some (Inr (take (nat m) full))" .
    with ne i na sn False m1 show ?thesis by (simp add: GetN_def Let_def)
  qed
qed

subsection \<open>The two loops of Set\<close>

lemma Set_remove_loop_applyAll:
  "Set_remove_loop elements ks c = applyAll remove [k \<leftarrow> ks. k \<notin> set elements] c"
  by (induction ks arbitrary: c) (auto split: sum.splits)

lemma foldl_appendIfNew_filter:
  "foldl appendIfNew res xs = res @ filter (\<lambda>x. x \<notin> set res) (foldl appendIfNew [] xs)"
proof (induction xs arbitrary: res)
  case Nil
  show ?case by simp
next
  case (Cons x xs)
  have one: "foldl appendIfNew [x] xs = [x] @ filter (\<lambda>y. y \<notin> set [x]) (foldl appendIfNew [] xs)"
    by (rule Cons.IH)
  show ?case
  proof (cases "x \<in> set res")
    case True
    then have "foldl appendIfNew res (x # xs) = foldl appendIfNew res xs"
      by (simp add: appendIfNew_old)
    also have "\<dots> = res @ filter (\<lambda>y. y \<notin> set res) (foldl appendIfNew [] xs)"
      by (rule Cons.IH)
    also have "filter (\<lambda>y. y \<notin> set res) (foldl appendIfNew [] xs) =
               filter (\<lambda>y. y \<notin> set res) (foldl appendIfNew [] (x # xs))"
      using True by (auto simp: appendIfNew_new one intro: filter_cong)
    finally show ?thesis .
  next
    case False
    then have "foldl appendIfNew res (x # xs) = foldl appendIfNew (res @ [x]) xs"
      by (simp add: appendIfNew_new)
    also have "\<dots> = (res @ [x]) @ filter (\<lambda>y. y \<notin> set (res @ [x])) (foldl appendIfNew [] xs)"
      by (rule Cons.IH)
    also have "\<dots> = res @ filter (\<lambda>y. y \<notin> set res) (foldl appendIfNew [] (x # xs))"
      using False by (auto simp: appendIfNew_new one intro: filter_cong)
    finally show ?thesis .
  qed
qed

lemma firstOccurrences_Cons_filter:
  "firstOccurrences (x # xs) = x # filter (\<lambda>y. y \<noteq> x) (firstOccurrences xs)"
  using foldl_appendIfNew_filter[of "[x]" xs]
  by (simp add: firstOccurrences_Cons) (simp add: firstOccurrences_def)

lemma add_member_keys:
  "add c v = Inr c' \<Longrightarrow> fst ` set (members c') = insert v (fst ` set (members c))"
  by (simp add: add_InrD(3) dom_update)

lemma Set_add_loop_applyAll:
  "Set_add_loop vs c = applyAll add [v \<leftarrow> firstOccurrences vs. v \<notin> fst ` set (members c)] c"
proof (induction vs arbitrary: c)
  case Nil
  show ?case by (simp add: firstOccurrences_def)
next
  case (Cons v vs)
  show ?case
  proof (cases "v \<in> fst ` set (members c)")
    case True
    then have m: "map_of (members c) v \<noteq> None" by (simp add: map_of_eq_None_iff)
    have "[w \<leftarrow> firstOccurrences (v # vs). w \<notin> fst ` set (members c)] =
          [w \<leftarrow> firstOccurrences vs. w \<notin> fst ` set (members c)]"
      using True by (auto simp: firstOccurrences_Cons_filter intro: filter_cong)
    with m Cons.IH[of c] show ?thesis by simp
  next
    case False
    then have m: "map_of (members c) v = None" by (simp add: map_of_eq_None_iff)
    have f: "[w \<leftarrow> firstOccurrences (v # vs). w \<notin> fst ` set (members c)] =
          v # [w \<leftarrow> firstOccurrences vs. w \<notin> insert v (fst ` set (members c))]"
      using False by (auto simp: firstOccurrences_Cons_filter intro: filter_cong)
    show ?thesis
    proof (cases "add c v")
      case (Inl e)
      with m f show ?thesis by simp
    next
      case (Inr c1)
      with m f Cons.IH[of c1] add_member_keys[OF Inr] show ?thesis by simp
    qed
  qed
qed

lemma applyAll_remove_result:
  assumes "applyAll remove ks c = Inr c'"
  shows "circle c' = filter (\<lambda>kv. \<forall>k\<in>set ks. fst kv \<notin> set (replicaPositions c k)) (circle c)"
    and "members c' = filter (\<lambda>kv. fst kv \<notin> set ks) (members c)"
    and "NumberOfReplicas c' = NumberOfReplicas c"
  using assms
proof (induction ks arbitrary: c)
  case Nil
  { case 1 then show ?case by simp }
  { case 2 then show ?case by simp }
  { case 3 then show ?case by simp }
next
  case (Cons k ks)
  { case 1
    then obtain c1 where r: "remove c k = Inr c1" and a: "applyAll remove ks c1 = Inr c'"
      by (auto split: sum.splits)
    note D = remove_InrD[OF r]
    from Cons(1)[OF a] show ?case
      by (auto simp: D(2) replicaPositions_cong[OF D(5)] intro: filter_cong) }
  { case 2
    then obtain c1 where r: "remove c k = Inr c1" and a: "applyAll remove ks c1 = Inr c'"
      by (auto split: sum.splits)
    note D = remove_InrD[OF r]
    from Cons(2)[OF a] show ?case
      by (auto simp: D(3) intro: filter_cong) }
  { case 3
    then obtain c1 where r: "remove c k = Inr c1" and a: "applyAll remove ks c1 = Inr c'"
      by (auto split: sum.splits)
    note D = remove_InrD[OF r]
    from Cons(3)[OF a] show ?case by (simp add: D(5)) }
qed

lemma applyAll_add_result:
  assumes "applyAll add vs c = Inr c'"
  shows "fst ` set (members c') = fst ` set (members c) \<union> set vs"
    and "NumberOfReplicas c' = NumberOfReplicas c"
    and "(\<forall>v\<in>set vs. p \<notin> set (replicaPositions c v)) \<Longrightarrow> map_of (circle c') p = map_of (circle c) p"
    and "map_of (circle c') p = Some x \<Longrightarrow> x \<in> set vs \<or> map_of (circle c) p = Some x"
  using assms
proof (induction vs arbitrary: c)
  case Nil
  { case 1 then show ?case by simp }
  { case 2 then show ?case by simp }
  { case 3 then show ?case by simp }
  { case 4 then show ?case by simp }
next
  case (Cons u us)
  { case 1
    then obtain c1 where r: "add c u = Inr c1" and a: "applyAll add us c1 = Inr c'"
      by (auto split: sum.splits)
    from Cons(1)[OF a] add_member_keys[OF r] show ?case by auto }
  { case 2
    then obtain c1 where r: "add c u = Inr c1" and a: "applyAll add us c1 = Inr c'"
      by (auto split: sum.splits)
    from Cons(2)[OF a] add_InrD(5)[OF r] show ?case by simp }
  { case 3
    from "3"(2) obtain c1 where r: "add c u = Inr c1" and a: "applyAll add us c1 = Inr c'"
      by (auto split: sum.splits)
    note R = replicaPositions_cong[OF add_InrD(5)[OF r]]
    from "3"(1) have "\<forall>v\<in>set us. p \<notin> set (replicaPositions c1 v)" by (simp add: R)
    from Cons(3)[OF this a] "3"(1) show ?case by (simp add: add_map_of_circle[OF r]) }
  { case 4
    from "4"(2) obtain c1 where r: "add c u = Inr c1" and a: "applyAll add us c1 = Inr c'"
      by (auto split: sum.splits)
    from Cons(4)[OF "4"(1) a] show ?case
      by (auto simp: add_map_of_circle[OF r] split: if_splits) }
qed

lemma applyAll_add_occupies:
  assumes "applyAll add vs c = Inr c'" "v \<in> set vs" "p \<in> set (replicaPositions c v)"
  shows "\<exists>w\<in>set vs. map_of (circle c') p = Some w"
  using assms
proof (induction vs arbitrary: c v)
  case Nil
  then show ?case by simp
next
  case (Cons u us)
  from Cons.prems(1) obtain c1 where r: "add c u = Inr c1" and a: "applyAll add us c1 = Inr c'"
    by (auto split: sum.splits)
  note R = replicaPositions_cong[OF add_InrD(5)[OF r]]
  show ?case
  proof (cases "\<exists>w\<in>set us. p \<in> set (replicaPositions c w)")
    case True
    then obtain w where w: "w \<in> set us" "p \<in> set (replicaPositions c1 w)" by (auto simp: R)
    from Cons.IH[OF a w] show ?thesis by auto
  next
    case False
    then have n: "\<forall>w\<in>set us. p \<notin> set (replicaPositions c1 w)" by (simp add: R)
    from False Cons.prems(2,3) have "v = u" by auto
    with Cons.prems(3) applyAll_add_result(3)[OF a n] show ?thesis
      by (simp add: add_map_of_circle[OF r])
  qed
qed

text \<open>
  A replica position of an added node that is a replica position of no other added
  node is held by that node afterwards.
\<close>

lemma applyAll_add_owns:
  assumes "applyAll add vs c = Inr c'" "v \<in> set vs" "p \<in> set (replicaPositions c v)"
    and "\<forall>w\<in>set vs. w \<noteq> v \<longrightarrow> p \<notin> set (replicaPositions c w)"
  shows "map_of (circle c') p = Some v"
  using assms
proof (induction vs arbitrary: c)
  case Nil
  then show ?case by simp
next
  case (Cons u us)
  from Cons.prems(1) obtain c1 where r: "add c u = Inr c1" and a: "applyAll add us c1 = Inr c'"
    by (auto split: sum.splits)
  note R = replicaPositions_cong[OF add_InrD(5)[OF r]]
  show ?case
  proof (cases "v \<in> set us")
    case True
    from Cons.prems(3,4) have "p \<in> set (replicaPositions c1 v)"
      "\<forall>w\<in>set us. w \<noteq> v \<longrightarrow> p \<notin> set (replicaPositions c1 w)" by (simp_all add: R)
    from Cons.IH[OF a True this] show ?thesis .
  next
    case False
    with Cons.prems(2) have uv: "u = v" by simp
    from False Cons.prems(4) have n: "\<forall>w\<in>set us. p \<notin> set (replicaPositions c1 w)"
      by (auto simp: R)
    from Cons.prems(3) uv have "map_of (circle c1) p = Some v"
      by (simp add: add_map_of_circle[OF r])
    with applyAll_add_result(3)[OF a n] show ?thesis by simp
  qed
qed

lemma applyAll_total:
  assumes "NumberOfReplicas c * 4 \<noteq> 0"
  shows "\<exists>c'. applyAll remove ks c = Inr c'" and "\<exists>c'. applyAll add ks c = Inr c'"
  using assms
proof (induction ks arbitrary: c)
  case Nil
  { case 1 show ?case by simp }
  { case 2 show ?case by simp }
next
  case (Cons k ks)
  { case 1
    then obtain c1 where r: "remove c k = Inr c1" by (simp add: remove_eq)
    with 1 remove_InrD(5)[OF r] have "NumberOfReplicas c1 * 4 \<noteq> 0" by simp
    from Cons(1)[OF this] r show ?case by simp }
  { case 2
    then obtain c1 where r: "add c k = Inr c1" by (simp add: add_eq)
    with 2 add_InrD(5)[OF r] have "NumberOfReplicas c1 * 4 \<noteq> 0" by simp
    from Cons(2)[OF this] r show ?case by simp }
qed

lemma Set_eq_reconcile: "Set c elements = Set_reconcile c elements"
proof (cases "applyAll remove [k \<leftarrow> map fst (members c). k \<notin> set elements] c")
  case (Inl e)
  then show ?thesis by (simp add: Set_def Set_reconcile_def Set_remove_loop_applyAll)
next
  case (Inr c1)
  have "fst ` set (members c1) = fst ` set (members c) \<inter> set elements"
    by (auto simp: applyAll_remove_result(2)[OF Inr] intro: rev_image_eqI)
  then have "[v \<leftarrow> firstOccurrences elements. v \<notin> fst ` set (members c1)] =
             [v \<leftarrow> firstOccurrences elements. v \<notin> fst ` set (members c)]"
    by (intro filter_cong) (auto simp: firstOccurrences_set)
  with Inr show ?thesis
    by (simp add: Set_def Set_reconcile_def Set_remove_loop_applyAll Set_add_loop_applyAll)
qed

text \<open>
  The members are visited in the unspecified order of \<^verbatim>\<open>range\<close>. The removals
  commute, so the state after the first loop of \<open>Set\<close> is the same for every order.
\<close>

lemma applyAll_remove_closed_form:
  "applyAll remove ks c =
     (if ks = [] then Inr c
      else if NumberOfReplicas c * 4 = 0 then Inl PanicDivideByZero
      else Inr \<lparr>circle = filter (\<lambda>kv. \<forall>k\<in>set ks. fst kv \<notin> set (replicaPositions c k)) (circle c),
                members = filter (\<lambda>kv. fst kv \<notin> set ks) (members c),
                sortedHashes = sort (map fst
                  (filter (\<lambda>kv. \<forall>k\<in>set ks. fst kv \<notin> set (replicaPositions c k)) (circle c))),
                NumberOfReplicas = NumberOfReplicas c,
                count = count c - of_nat (length ks)\<rparr>)"
proof (induction ks arbitrary: c)
  case Nil
  show ?case by simp
next
  case (Cons k ks)
  show ?case
  proof (cases "NumberOfReplicas c * 4 = 0")
    case True
    then show ?thesis by (simp add: remove_eq)
  next
    case False
    then obtain c1 where r: "remove c k = Inr c1" by (simp add: remove_eq)
    note D = remove_InrD[OF r]
    note P = replicaPositions_cong[OF D(5)]
    have f1: "filter (\<lambda>kv. \<forall>k'\<in>set ks. fst kv \<notin> set (replicaPositions c k')) (circle c1) =
              filter (\<lambda>kv. \<forall>k'\<in>set (k # ks). fst kv \<notin> set (replicaPositions c k')) (circle c)"
      by (auto simp: D(2) intro: filter_cong)
    have f2: "filter (\<lambda>kv. fst kv \<notin> set ks) (members c1) =
              filter (\<lambda>kv. fst kv \<notin> set (k # ks)) (members c)"
      by (auto simp: D(3) intro: filter_cong)
    show ?thesis
    proof (cases "ks = []")
      case True
      with False r show ?thesis by (simp add: remove_eq)
    next
      case ne: False
      from False D(5) have "NumberOfReplicas c1 * 4 \<noteq> 0" by simp
      with ne r Cons.IH[of c1] False show ?thesis
        by (simp add: P f1 f2 D(5) D(6) del: set_simps)
    qed
  qed
qed

lemma Set_remove_loop_order_irrelevant:
  assumes "distinct ks" "distinct ks'" "set ks = set ks'"
  shows "Set_remove_loop elements ks c = Set_remove_loop elements ks' c"
proof -
  let ?f = "filter (\<lambda>k. k \<notin> set elements)"
  from assms have s: "set (?f ks) = set (?f ks')" by simp
  from assms have "distinct (?f ks)" "distinct (?f ks')" by simp_all
  then have "length (?f ks) = length (?f ks')"
    using s by (metis distinct_card)
  moreover from s have "?f ks = [] \<longleftrightarrow> ?f ks' = []" by (metis set_empty)
  ultimately show ?thesis
    unfolding Set_remove_loop_applyAll applyAll_remove_closed_form using s by simp
qed

subsection \<open>Walks that never end\<close>

text \<open>
  When the search index is 0, the test \<^verbatim>\<open>i != start\<close> never sees the index 0: the
  wrap sets \<open>i\<close> to 0 inside the body and the increment follows. The loop of
  \<open>GetTwo\<close> then ends only at a node other than the first, and the loop of \<open>GetN\<close>
  only when the result reaches \<open>n\<close> elements.
\<close>

lemma GetTwo_loop_never_returns:
  assumes "\<forall>j<length (sortedHashes c). map_of (circle c) (sortedHashes c ! j) = a"
    and "0 < length (sortedHashes c)" and "i \<noteq> 0" and "i \<le> length (sortedHashes c)"
  shows "GetTwo_loop c a 0 i b = None"
proof (rule ccontr)
  assume "GetTwo_loop c a 0 i b \<noteq> None"
  then obtain r where r: "GetTwo_loop c a 0 i b = Some r" by auto
  define stuck where "stuck = (\<lambda>(c :: Consistent) a (start :: nat) (i :: nat).
      (\<forall>j<length (sortedHashes c). map_of (circle c) (sortedHashes c ! j) = a) \<and>
      0 < length (sortedHashes c) \<and> start = 0 \<and> i \<noteq> 0 \<and> i \<le> length (sortedHashes c))"
  have "\<not> stuck c a 0 i"
  proof (rule GetTwo_loop.raw_induct[where P = "\<lambda>c a start i b r. \<not> stuck c a start i", OF _ r])
    fix loop :: "Consistent \<Rightarrow> WriteCloser option \<Rightarrow> nat \<Rightarrow> nat \<Rightarrow> WriteCloser option
                   \<Rightarrow> (error + WriteCloser option) option"
      and c a start i0 b0 y
    assume IH: "\<And>c a start i b y. loop c a start i b = Some y \<Longrightarrow> \<not> stuck c a start i"
    assume eq: "(if i0 = start then Some (Inr b0)
      else let i = if length (sortedHashes c) \<le> i0 then 0 else i0
           in if length (sortedHashes c) \<le> i then Some (Inl PanicIndexOutOfRange)
              else let b = map_of (circle c) (sortedHashes c ! i)
                   in if b \<noteq> a then Some (Inr b) else loop c a start (i + 1) b) = Some y"
    show "\<not> stuck c a start i0"
    proof
      assume st: "stuck c a start i0"
      define i' where "i' = (if length (sortedHashes c) \<le> i0 then 0 else i0)"
      from st have s0: "start = 0" "i0 \<noteq> start" and len: "0 < length (sortedHashes c)"
        and all: "\<forall>j<length (sortedHashes c). map_of (circle c) (sortedHashes c ! j) = a"
        by (simp_all add: stuck_def)
      from len have il: "i' < length (sortedHashes c)" by (simp add: i'_def)
      with all have na: "map_of (circle c) (sortedHashes c ! i') = a" by simp
      from eq s0(2) il na have "loop c a start (i' + 1) a = Some y"
        by (simp add: Let_def i'_def[symmetric])
      from IH[OF this] have "\<not> stuck c a start (i' + 1)" .
      moreover from all len s0(1) il have "stuck c a start (i' + 1)" by (simp add: stuck_def)
      ultimately show False by simp
    qed
  qed
  with assms show False by (simp add: stuck_def)
qed

lemma GetN_loop_never_returns:
  assumes "sint n \<le> 0" and "0 < length (sortedHashes c)"
    and "i \<noteq> 0" and "i \<le> length (sortedHashes c)" and "res \<noteq> []"
  shows "GetN_loop c n 0 i res = None"
proof (rule ccontr)
  assume "GetN_loop c n 0 i res \<noteq> None"
  then obtain r where r: "GetN_loop c n 0 i res = Some r" by auto
  define stuck where "stuck = (\<lambda>(c :: Consistent) (n :: int64) (start :: nat) (i :: nat)
      (res :: WriteCloser option list).
      sint n \<le> 0 \<and> 0 < length (sortedHashes c) \<and> start = 0 \<and> i \<noteq> 0 \<and>
      i \<le> length (sortedHashes c) \<and> res \<noteq> [])"
  have "\<not> stuck c n 0 i res"
  proof (rule GetN_loop.raw_induct[where P = "\<lambda>c n start i res r. \<not> stuck c n start i res", OF _ r])
    fix loop :: "Consistent \<Rightarrow> int64 \<Rightarrow> nat \<Rightarrow> nat \<Rightarrow> WriteCloser option list
                   \<Rightarrow> (error + WriteCloser option list) option"
      and c n start i0 res0 y
    assume IH: "\<And>c n start i res y. loop c n start i res = Some y \<Longrightarrow> \<not> stuck c n start i res"
    assume eq: "(if i0 = start then Some (Inr res0)
      else let i = if length (sortedHashes c) \<le> i0 then 0 else i0
           in if length (sortedHashes c) \<le> i then Some (Inl PanicIndexOutOfRange)
              else let elem = map_of (circle c) (sortedHashes c ! i);
                       res = if \<not> sliceContainsMember res0 elem then res0 @ [elem] else res0
                   in if int (length res) = sint n then Some (Inr res)
                      else loop c n start (i + 1) res) = Some y"
    show "\<not> stuck c n start i0 res0"
    proof
      assume st: "stuck c n start i0 res0"
      define i' where "i' = (if length (sortedHashes c) \<le> i0 then 0 else i0)"
      define res' where "res' = (if \<not> sliceContainsMember res0 (map_of (circle c) (sortedHashes c ! i'))
                                 then res0 @ [map_of (circle c) (sortedHashes c ! i')] else res0)"
      from st have s0: "start = 0" "i0 \<noteq> start" and len: "0 < length (sortedHashes c)"
        and n0: "sint n \<le> 0" and ne: "res0 \<noteq> []"
        by (simp_all add: stuck_def)
      from len have il: "i' < length (sortedHashes c)" by (simp add: i'_def)
      from ne have ne': "res' \<noteq> []" by (simp add: res'_def)
      then have "0 < int (length res')" by simp
      with n0 have nl: "int (length res') \<noteq> sint n" by linarith
      from eq s0(2) il nl have "loop c n start (i' + 1) res' = Some y"
        by (simp add: Let_def i'_def[symmetric] res'_def[symmetric])
      from IH[OF this] have "\<not> stuck c n start (i' + 1) res'" .
      moreover from n0 len s0(1) il ne' have "stuck c n start (i' + 1) res'"
        by (simp add: stuck_def)
      ultimately show False by simp
    qed
  qed
  with assms show False by (simp add: stuck_def)
qed

subsection \<open>Evaluation of the hash and of the example rings\<close>

lemma ieeeTable_unfold:
  "ieeeTable i = crcBit (crcBit (crcBit (crcBit (crcBit (crcBit (crcBit (crcBit (ucast i))))))))"
  by (simp add: ieeeTable_def eval_nat_numeral)

lemma ChecksumIEEE_xor:
  "ChecksumIEEE p = foldl simpleUpdate_step 0xFFFFFFFF p XOR 0xFFFFFFFF"
proof -
  have m: "(0xFFFFFFFF :: uint32) = - 1" by simp
  have n: "NOT x = x XOR 0xFFFFFFFF" for x :: uint32
    unfolding m by (simp only: bit.xor_one_right)
  show ?thesis
    unfolding ChecksumIEEE_def simpleUpdate_def n by simp
qed

lemma hashKey_eval:
  "hashKey key = foldl simpleUpdate_step 0xFFFFFFFF (map of_char key) XOR 0xFFFFFFFF"
  by (simp add: hashKey_def scratch_roundtrip ChecksumIEEE_xor) (simp add: bytes_def)

lemmas hash_eval = hashKey_eval simpleUpdate_step_def ieeeTable_unfold crcBit_def

lemma hash_empty: "hashKey [] = 0"
  by (simp add: hash_eval)

lemma hash_0a: "hashKey ''0a'' = 2754246082"
  by (simp add: hash_eval)

lemma hash_0b: "hashKey ''0b'' = 1025713272"
  by (simp add: hash_eval)

lemma hash_0Q: "hashKey ''0Q895q'' = 735956280"
  by (simp add: hash_eval)

lemma hash_1Q: "hashKey ''1Q895q'' = 3766558365"
  by (simp add: hash_eval)

lemma hash_0M: "hashKey ''0Mwe4e'' = 735956280"
  by (simp add: hash_eval)

lemma hash_1M: "hashKey ''1Mwe4e'' = 3766558365"
  by (simp add: hash_eval)

lemma Itoa_0: "Itoa 0 = ''0''"
  by code_simp

lemma Itoa_1: "Itoa 1 = ''1''"
  by code_simp

lemma replicaIndices_1: "NumberOfReplicas c = 1 \<Longrightarrow> replicaIndices c = [0]"
  by (simp add: replicaIndices_def)

lemma replicaIndices_2: "NumberOfReplicas c = 2 \<Longrightarrow> replicaIndices c = [0, 1]"
  by (simp add: replicaIndices_def upto.simps)

lemmas ring_eval = replicaIndices_1 replicaIndices_2 elementKey_def Itoa_0 Itoa_1
  nodeA_def nodeB_def nodeQ_def nodeM_def hash_0a hash_0b hash_0Q hash_1Q hash_0M hash_1M hash_empty

lemma Add_ring0: "Add ring0 nodeA = Inr ringA"
  by (simp add: Add_def add_eq ring0_def New_def ringA_def replicaIndices_1 elementKey_def Itoa_0
      nodeA_def hash_0a)

lemma Add_ringA: "Add ringA nodeB = Inr ringAB"
  by (simp add: Add_def add_eq ringAB_def ringA_def replicaIndices_1 elementKey_def Itoa_0
      nodeA_def nodeB_def hash_0a hash_0b)

lemma Add_ringA_again: "Add ringA nodeA = Inr ringAA"
  by (simp add: Add_def add_eq ringAA_def ringA_def replicaIndices_1 elementKey_def Itoa_0
      nodeA_def hash_0a)

lemma Add_ring2: "Add ring2 nodeQ = Inr ringQ"
  by (simp add: Add_def add_eq ring2_def New_def ringQ_def ring_eval)

lemma Add_ringQ: "Add ringQ nodeM = Inr ringQM"
  by (simp add: Add_def add_eq ringQ_def ringQM_def ring_eval)

lemma Add_ringQ_again: "Add ringQ nodeQ = Inr ringQQ"
  by (simp add: Add_def add_eq ringQ_def ringQQ_def ring_eval)

lemma Remove_ringQ: "Remove ringQ nodeM = Inr ringQ_emptied"
  by (simp add: Remove_def remove_eq replicaPositions_def ringQ_def ringQ_emptied_def ring_eval)

lemma Set_ringA: "Set ringA [nodeB] = Inr ringB"
  by (simp add: Set_def remove_eq add_eq replicaPositions_def ringA_def ringB_def ring_eval)

lemma Get_ringAB: "Get ringAB ''0a'' = Inr (Some nodeB)"
  by (simp add: Get_def ringAB_def search_def Search_def Search_loop.simps hash_0a nodeA_def nodeB_def)

lemma Get_ringQ: "Get ringQ [] = Inr (Some nodeQ)"
  by (simp add: Get_def ringQ_def search_def Search_def Search_loop.simps ring_eval)

lemma GetTwo_ringQM: "GetTwo ringQM ''0Q895q'' = Some (Inr (Some nodeM, Some nodeM))"
  by (simp add: GetTwo_def ringQM_def search_def Search_def Search_loop.simps GetTwo_loop.simps
      Let_def ring_eval)

lemma GetTwo_ringQQ: "GetTwo ringQQ ''0Q895q'' = Some (Inr (Some nodeQ, Some nodeQ))"
  by (simp add: GetTwo_def ringQQ_def search_def Search_def Search_loop.simps GetTwo_loop.simps
      Let_def ring_eval)

lemma GetN_ringQM: "GetN ringQM ''0Q895q'' 2 = Some (Inr [Some nodeM])"
  by (simp add: GetN_def ringQM_def search_def Search_def Search_loop.simps GetN_loop.simps
      Let_def word_sless_alt ring_eval)

lemma GetN_ringAB_zero: "GetN ringAB ''0b'' 0 = Some (Inr [Some nodeA, Some nodeB])"
  by (simp add: GetN_def ringAB_def search_def Search_def Search_loop.simps GetN_loop.simps
      Let_def word_sless_alt ring_eval)

lemma GetTwo_ringAA_never_returns: "GetTwo ringAA key = None"
proof -
  have s: "search ringAA (hashKey key) = 0"
    by (simp add: search_def Let_def ringAA_def)
  have "GetTwo_loop ringAA (Some nodeA) 0 1 None = None"
    by (rule GetTwo_loop_never_returns) (simp_all add: ringAA_def)
  then show ?thesis
    by (simp add: GetTwo_def Let_def s) (simp add: ringAA_def)
qed

lemma GetN_ringAB_zero_never_returns: "GetN ringAB [] 0 = None"
proof -
  have s: "search ringAB (hashKey []) = 0"
    by (simp add: search_def Search_def Search_loop.simps Let_def ringAB_def hash_empty)
  have "GetN_loop ringAB 0 0 1 [Some nodeB] = None"
    by (rule GetN_loop_never_returns) (simp_all add: ringAB_def)
  then show ?thesis
    by (simp add: GetN_def Let_def s word_sless_alt) (simp add: ringAB_def)
qed

lemma cacheConsistent_ringAB: "cacheConsistent ringAB"
  by (simp add: cacheConsistent_def ringAB_def)

lemma reachable_ringAB: "reachable ringAB"
proof -
  have "reachable ring0" unfolding ring0_def by (rule reachable_New)
  from reachable_Add[OF this Add_ring0] have "reachable ringA" .
  from reachable_Add[OF this Add_ringA] show ?thesis .
qed

lemma ringInvariant_ringAB: "ringInvariant ringAB"
  by (rule reachable_ringInvariant[OF reachable_ringAB])

text \<open>
  The rings with a third node, and with the colliding nodes added in the other order.
\<close>

lemma Add_ring2_M: "Add ring2 nodeM = Inr ringM"
  by (simp add: Add_def add_eq ring2_def New_def ringM_def ring_eval)

lemma Add_ringM: "Add ringM nodeQ = Inr ringMQ"
  by (simp add: Add_def add_eq ringM_def ringMQ_def ring_eval)

lemma Set_ringMQ: "Set ringMQ [nodeQ] = Inr ringQ_stripped"
  by (simp add: Set_def remove_eq add_eq replicaPositions_def ringMQ_def ringQ_stripped_def
      ring_eval)

lemma Get_ringMQ: "Get ringMQ [] = Inr (Some nodeQ)"
  by (simp add: Get_def ringMQ_def search_def Search_def Search_loop.simps ring_eval)

lemma replicaPositions_ringMQ: "replicaPositions ringMQ nodeQ = [735956280, 3766558365]"
  by (simp add: replicaPositions_def ringMQ_def ring_eval)

lemma hash_0c: "hashKey ''0c'' = 1243878638"
  by (simp add: hash_eval)

lemma Set_ringAB: "Set ringAB [nodeA, nodeC] = Inr ringAC"
  by (simp add: Set_def remove_eq add_eq replicaPositions_def ringAB_def ringAC_def nodeC_def
      hash_0c ring_eval)

lemma Get_ringQ_stripped: "Get ringQ_stripped [] = Inl ErrEmptyCircle"
  by (simp add: Get_def ringQ_stripped_def)

lemma reachable_ringMQ: "reachable ringMQ"
proof -
  have "reachable ring2" unfolding ring2_def by (rule reachable_New)
  from reachable_Add[OF this Add_ring2_M] have "reachable ringM" .
  from reachable_Add[OF this Add_ringM] show ?thesis .
qed

section \<open>The claims\<close>

text \<open>
  C1, as amended. For every non-empty ring state whose sorted cache agrees with the
  position table, \<open>Get key\<close> returns the node stored at the first position of the
  ascending cache that is strictly greater than \<open>hashKey key\<close>, and wraps around to
  the node at the smallest position when \<open>hashKey key\<close> is greater than or equal to
  every position. When \<open>hashKey key\<close> equals an occupied position, the node of the
  following position is returned, not the node of that very position.
\<close>

theorem Get_first_position_after_hash:
  assumes "cacheConsistent c" and "circle c \<noteq> []"
  shows "\<exists>p x. Get c key = Inr (Some x) \<and> map_of (circle c) p = Some x \<and>
           p \<in> set (sortedHashes c) \<and>
           (if \<exists>q\<in>set (sortedHashes c). hashKey key < q
            then hashKey key < p \<and> (\<forall>q\<in>set (sortedHashes c). hashKey key < q \<longrightarrow> p \<le> q)
            else (\<forall>q\<in>set (sortedHashes c). p \<le> q))"
proof -
  from Get_successor[OF assms, of key] obtain p x where
    s: "successorPosition (sortedHashes c) (hashKey key) = Some p"
    and g: "map_of (circle c) p = Some x" "Get c key = Inr (Some x)" by blast
  from successorPosition_props[OF s sortedHashes_sorted[OF assms(1)]] g
  show ?thesis by blast
qed

theorem Get_first_position_after_hash_witness:
  "cacheConsistent ringAB \<and> circle ringAB \<noteq> [] \<and> Get ringAB ''0b'' = Inr (Some nodeA)"
proof -
  have c: "cacheConsistent ringAB" by (rule cacheConsistent_ringAB)
  have n: "circle ringAB \<noteq> []" by (simp add: ringAB_def)
  from Get_first_position_after_hash[OF c n, of "''0b''"] obtain p x where
    g: "Get ringAB ''0b'' = Inr (Some x)" and m: "map_of (circle ringAB) p = Some x"
    and pin: "p \<in> set (sortedHashes ringAB)"
    and f: "if \<exists>q\<in>set (sortedHashes ringAB). hashKey ''0b'' < q
            then hashKey ''0b'' < p \<and> (\<forall>q\<in>set (sortedHashes ringAB). hashKey ''0b'' < q \<longrightarrow> p \<le> q)
            else (\<forall>q\<in>set (sortedHashes ringAB). p \<le> q)"
    by blast
  have e: "\<exists>q\<in>set (sortedHashes ringAB). hashKey ''0b'' < q"
    by (simp add: ringAB_def hash_0b)
  from f e have "hashKey ''0b'' < p" by (simp only: if_True)
  with pin have "p = 2754246082" by (auto simp: ringAB_def hash_0b)
  with m have "x = nodeA" by (simp add: ringAB_def)
  with g c n show ?thesis by simp
qed

text \<open>
  C1 as stated fails: on the ring holding \<open>nodeA\<close> and \<open>nodeB\<close> with one replica
  each, the key \<open>''0a''\<close> hashes exactly to the position of \<open>nodeA\<close>, and \<open>Get\<close>
  returns \<open>nodeB\<close>.
\<close>

theorem Get_at_occupied_position_counterexample:
  "Add ring0 nodeA = Inr ringA \<and> Add ringA nodeB = Inr ringAB \<and>
   hashKey ''0a'' \<in> set (sortedHashes ringAB) \<and>
   map_of (circle ringAB) (hashKey ''0a'') = Some nodeA \<and>
   Get ringAB ''0a'' = Inr (Some nodeB) \<and> nodeB \<noteq> nodeA"
  by (simp add: Add_ring0 Add_ringA Get_ringAB) (simp add: ringAB_def hash_0a nodeA_def nodeB_def)

text \<open>
  C2. The count field does not follow the membership set: \<open>add\<close> increments it also
  when the node is already a member. After adding \<open>nodeA\<close> twice to a new ring the
  membership set has one entry and the count is 2.
\<close>

theorem count_after_double_Add:
  "Add ring0 nodeA = Inr ringA \<and> Add ringA nodeA = Inr ringAA \<and>
   map fst (members ringAA) = [nodeA] \<and> count ringAA = 2"
  by (simp add: Add_ring0 Add_ringA_again) (simp add: ringAA_def)

text \<open>
  C3, as amended. For every ring state whose cache agrees with the table and every
  node handle that is not in the membership set and none of whose replica positions
  is a key of the position table, \<open>Remove\<close> leaves the position table, the
  membership set and the sorted cache as they are, so every later \<open>Get\<close> returns what
  it returned before. (Nothing is said of the count, nor of \<open>GetTwo\<close> and \<open>GetN\<close>,
  which read it.)
\<close>

theorem Remove_absent_node_frame:
  assumes "cacheConsistent c"
    and "map_of (members c) x = None"
    and "\<forall>p\<in>set (replicaPositions c x). map_of (circle c) p = None"
    and "NumberOfReplicas c * 4 \<noteq> 0"
  shows "\<exists>c'. Remove c x = Inr c' \<and> circle c' = circle c \<and> members c' = members c \<and>
              sortedHashes c' = sortedHashes c \<and> NumberOfReplicas c' = NumberOfReplicas c \<and>
              (\<forall>key. Get c' key = Get c key)"
proof -
  from assms(4) obtain c' where r: "remove c x = Inr c'" by (simp add: remove_eq)
  note D = remove_InrD[OF r]
  have "\<forall>kv\<in>set (circle c). fst kv \<notin> set (replicaPositions c x)"
  proof
    fix kv assume "kv \<in> set (circle c)"
    then have "map_of (circle c) (fst kv) \<noteq> None"
      by (simp add: map_of_eq_None_iff)
    with assms(3) show "fst kv \<notin> set (replicaPositions c x)" by auto
  qed
  then have c: "circle c' = circle c" by (simp add: D(2))
  from assms(2) have "\<forall>kv\<in>set (members c). fst kv \<noteq> x"
    by (auto simp: map_of_eq_None_iff)
  then have m: "members c' = members c" by (simp add: D(3))
  from assms(1) have s: "sortedHashes c' = sortedHashes c"
    by (simp add: D(4) c cacheConsistent_def)
  from Get_depends_on_table[OF c s] have "\<forall>key. Get c' key = Get c key" by simp
  with r c m s D(5) show ?thesis by (simp add: Remove_def)
qed

theorem Remove_absent_node_frame_witness:
  "cacheConsistent ringA \<and> map_of (members ringA) nodeB = None \<and>
   replicaPositions ringA nodeB = [1025713272] \<and> map_of (circle ringA) 1025713272 = None \<and>
   NumberOfReplicas ringA * 4 \<noteq> 0 \<and>
   (\<exists>c'. Remove ringA nodeB = Inr c' \<and> circle c' = circle ringA \<and> members c' = members ringA \<and>
         sortedHashes c' = sortedHashes ringA \<and> Get c' ''0b'' = Get ringA ''0b'')"
proof -
  have a: "cacheConsistent ringA" by (simp add: cacheConsistent_def ringA_def)
  have b: "map_of (members ringA) nodeB = None" by (simp add: ringA_def nodeA_def nodeB_def)
  have p: "replicaPositions ringA nodeB = [1025713272]"
    by (simp add: replicaPositions_def ringA_def ring_eval)
  have q: "map_of (circle ringA) 1025713272 = None" by (simp add: ringA_def)
  from p q have c: "\<forall>p\<in>set (replicaPositions ringA nodeB). map_of (circle ringA) p = None"
    by simp
  have d: "NumberOfReplicas ringA * 4 \<noteq> 0" by (simp add: ringA_def)
  from Remove_absent_node_frame[OF a b c d] obtain c' where
    "Remove ringA nodeB = Inr c'" "circle c' = circle ringA" "members c' = members ringA"
    "sortedHashes c' = sortedHashes ringA" "\<forall>key. Get c' key = Get ringA key" by blast
  then have "\<exists>c'. Remove ringA nodeB = Inr c' \<and> circle c' = circle ringA \<and>
         members c' = members ringA \<and> sortedHashes c' = sortedHashes ringA \<and>
         Get c' ''0b'' = Get ringA ''0b''" by blast
  with a b p q d show ?thesis by blast
qed

text \<open>
  C3 as stated fails: \<open>nodeM\<close> is not a member of the ring that holds \<open>nodeQ\<close> alone,
  yet removing it empties the position table, lowers the count and makes \<open>Get\<close> fail.
\<close>

theorem Remove_absent_node_counterexample:
  "Add ring2 nodeQ = Inr ringQ \<and> map_of (members ringQ) nodeM = None \<and>
   Remove ringQ nodeM = Inr ringQ_emptied \<and>
   circle ringQ \<noteq> [] \<and> circle ringQ_emptied = [] \<and>
   count ringQ = 1 \<and> count ringQ_emptied = 0 \<and>
   Get ringQ [] = Inr (Some nodeQ) \<and> Get ringQ_emptied [] = Inl ErrEmptyCircle"
  by (simp add: Add_ring2 Remove_ringQ Get_ringQ)
     (simp add: ringQ_def ringQ_emptied_def Get_def nodeQ_def nodeM_def)

text \<open>
  C4. On a reachable ring, \<open>Get\<close>, \<open>GetTwo\<close> and \<open>GetN\<close> fail with
  \<open>ErrEmptyCircle\<close> exactly when the position table is empty; \<open>Get\<close> and \<open>GetTwo\<close>
  fail in no other way, and neither does \<open>GetN\<close> unless it is asked for a negative
  number of nodes or the count is negative. On a non-empty ring \<open>Get\<close> succeeds for
  every key and returns a node of the membership set.
\<close>

theorem EmptyCircle_iff_empty_table:
  assumes "reachable c"
  shows "(Get c key = Inl ErrEmptyCircle \<longleftrightarrow> circle c = []) \<and>
         (GetTwo c key = Some (Inl ErrEmptyCircle) \<longleftrightarrow> circle c = []) \<and>
         (GetN c key n = Some (Inl ErrEmptyCircle) \<longleftrightarrow> circle c = []) \<and>
         (\<forall>e. Get c key = Inl e \<or> GetTwo c key = Some (Inl e) \<or>
              (0 \<le> sint n \<and> 0 \<le> sint (count c) \<and> GetN c key n = Some (Inl e))
            \<longrightarrow> e = ErrEmptyCircle) \<and>
         (circle c \<noteq> [] \<longrightarrow>
            (\<exists>x. Get c key = Inr (Some x) \<and> x \<in> fst ` set (members c)))"
proof -
  from reachable_ringInvariant[OF assms] have cc: "cacheConsistent c" and own: "tableOwned c"
    by (simp_all add: ringInvariant_def)
  have empty: "Get c key = Inl ErrEmptyCircle \<and> GetTwo c key = Some (Inl ErrEmptyCircle) \<and>
            GetN c key n = Some (Inl ErrEmptyCircle)" if "circle c = []"
    using that by (simp add: Get_def GetTwo_def GetN_def)
  have nonempty: "\<exists>x. Get c key = Inr (Some x) \<and> x \<in> fst ` set (members c)"
    if ne: "circle c \<noteq> []"
  proof -
    from Get_successor[OF cc ne, of key] obtain p x where
      "(p, x) \<in> set (circle c)" "Get c key = Inr (Some x)" by blast
    with own show ?thesis by (auto simp: tableOwned_def)
  qed
  have get_err: "e = ErrEmptyCircle \<and> circle c = []" if "Get c key = Inl e" for e
    using that nonempty by (cases "circle c = []") (auto simp: Get_def)
  have getN_err: "e = ErrEmptyCircle \<and> circle c = []"
    if "0 \<le> sint n" "0 \<le> sint (count c)" "GetN c key n = Some (Inl e)" for e
    using GetN_error[OF cc that(3)] that(1,2) by auto
  have getN_iff: "GetN c key n = Some (Inl ErrEmptyCircle) \<longleftrightarrow> circle c = []"
    using GetN_error[OF cc, of key n ErrEmptyCircle] empty by auto
  from empty nonempty get_err GetTwo_error[OF cc] getN_err getN_iff show ?thesis
    by blast
qed

theorem EmptyCircle_iff_empty_table_witness:
  "reachable ringAB \<and> circle ringAB \<noteq> [] \<and>
   (\<exists>x. Get ringAB ''0a'' = Inr (Some x) \<and> x \<in> fst ` set (members ringAB)) \<and>
   reachable ring0 \<and> circle ring0 = [] \<and> Get ring0 ''0a'' = Inl ErrEmptyCircle \<and>
   GetTwo ring0 ''0a'' = Some (Inl ErrEmptyCircle) \<and> GetN ring0 ''0a'' 3 = Some (Inl ErrEmptyCircle)"
proof -
  have r0: "reachable ring0" unfolding ring0_def by (rule reachable_New)
  have e: "circle ring0 = []" by (simp add: ring0_def New_def)
  have n: "circle ringAB \<noteq> []" by (simp add: ringAB_def)
  from EmptyCircle_iff_empty_table[OF reachable_ringAB, of "''0a''" 3] n
    EmptyCircle_iff_empty_table[OF r0, of "''0a''" 3] e r0 reachable_ringAB
  show ?thesis by simp
qed

text \<open>
  C5, as amended. Take a non-empty ring state that satisfies the ring invariant, whose
  count equals the number of registered nodes and in which every registered node holds
  at least one position of the table. For every key and every \<open>n \<ge> 1\<close>, \<open>GetN key n\<close>
  returns exactly \<open>min n (number of members)\<close> pairwise distinct registered nodes: the
  node \<open>Get key\<close> returns first, then the nodes in the order in which the forward
  wrapping walk over the sorted cache first meets them; for \<open>n\<close> at least the number
  of members it returns every member exactly once.
\<close>

theorem GetN_distinct_members_in_walk_order:
  assumes "ringInvariant c" and "circle c \<noteq> []"
    and "countAccurate c" and "membersOnRing c" and "1 \<le> sint n"
  shows "\<exists>a res. Get c key = Inr (Some a) \<and> GetN c key n = Some (Inr (map Some res)) \<and>
           int (length res) = min (sint n) (int (length (members c))) \<and>
           distinct res \<and> set res \<subseteq> fst ` set (members c) \<and> hd res = a \<and>
           map Some res =
             take (length res) (firstOccurrences (walkNodes c (search c (hashKey key)))) \<and>
           (int (length (members c)) \<le> sint n \<longrightarrow> set res = fst ` set (members c))"
proof -
  define full where "full = firstOccurrences (walkNodes c (search c (hashKey key)))"
  define m where "m = min (sint n) (int (length (members c)))"
  note F = GetN_closed_form[OF assms full_def m_def]
  from F(3) obtain a ys where g: "Get c key = Inr (Some a)" and ys: "full = Some a # ys"
    by blast
  define R where "R = take (nat m) full"
  define res where "res = map the R"
  have sub: "set R \<subseteq> Some ` fst ` set (members c)"
    using set_take_subset[of "nat m" full] by (simp add: R_def F(2))
  then have RS: "map Some res = R"
    unfolding res_def by (induction R) auto
  have ml: "m \<le> int (length full)" by (simp add: F(1) m_def)
  then have lr: "length R = nat m" by (simp add: R_def)
  have lres: "length res = nat m" using lr by (simp add: res_def)
  have "distinct R" by (simp add: R_def full_def firstOccurrences_distinct)
  then have dres: "distinct res" unfolding RS[symmetric] by (simp add: distinct_map)
  have sres: "set res \<subseteq> fst ` set (members c)"
    using sub unfolding RS[symmetric] by auto
  from F(4) ys have "R = Some a # take (nat m - 1) ys"
    by (cases "nat m") (simp_all add: R_def)
  then have hres: "hd res = a" by (simp add: res_def)
  have all: "set res = fst ` set (members c)" if "int (length (members c)) \<le> sint n"
  proof -
    from that have "nat m = length full" by (simp add: m_def F(1))
    then have "R = full" by (simp add: R_def)
    with RS have "set (map Some res) = set full" by simp
    then have "Some ` set res = Some ` fst ` set (members c)"
      by (simp add: F(2))
    then show ?thesis by (simp add: inj_image_eq_iff)
  qed
  have "int (length res) = min (sint n) (int (length (members c)))"
    using F(4) by (simp add: lres m_def)
  moreover have "map Some res = take (length res) full" by (simp add: RS lres R_def)
  moreover have "GetN c key n = Some (Inr (map Some res))" by (simp add: RS R_def F(5))
  ultimately show ?thesis
    using g dres sres hres all unfolding full_def by blast
qed

theorem GetN_distinct_members_in_walk_order_witness:
  "ringInvariant ringAB \<and> circle ringAB \<noteq> [] \<and> countAccurate ringAB \<and> membersOnRing ringAB \<and>
   1 \<le> sint (5 :: int64) \<and> Get ringAB ''0a'' = Inr (Some nodeB) \<and>
   (\<exists>res. GetN ringAB ''0a'' 5 = Some (Inr (map Some res)) \<and> length res = 2 \<and> distinct res \<and>
          hd res = nodeB \<and> set res = fst ` set (members ringAB))"
proof -
  have n: "circle ringAB \<noteq> []" by (simp add: ringAB_def)
  have c: "countAccurate ringAB" by (simp add: countAccurate_def ringAB_def)
  have m: "membersOnRing ringAB" by (simp add: membersOnRing_def ringAB_def)
  have f: "1 \<le> sint (5 :: int64)" by simp
  have l: "int (length (members ringAB)) \<le> sint (5 :: int64)"
    "min (sint (5 :: int64)) (int (length (members ringAB))) = 2" by (simp_all add: ringAB_def)
  from GetN_distinct_members_in_walk_order[OF ringInvariant_ringAB n c m f, of "''0a''"]
  obtain a res where
    "Get ringAB ''0a'' = Inr (Some a)" "GetN ringAB ''0a'' 5 = Some (Inr (map Some res))"
    "int (length res) = min (sint (5 :: int64)) (int (length (members ringAB)))"
    "distinct res" "hd res = a"
    "int (length (members ringAB)) \<le> sint (5 :: int64) \<longrightarrow> set res = fst ` set (members ringAB)"
    by blast
  with l Get_ringAB have
    "GetN ringAB ''0a'' 5 = Some (Inr (map Some res)) \<and> length res = 2 \<and> distinct res \<and>
          hd res = nodeB \<and> set res = fst ` set (members ringAB)" by simp
  with ringInvariant_ringAB n c m f Get_ringAB show ?thesis by blast
qed

text \<open>
  C5 as stated fails. On the ring to which the colliding nodes \<open>nodeQ\<close> and \<open>nodeM\<close>
  were added, two nodes are registered and \<open>GetN\<close> with \<open>n = 2\<close> returns one node.
  With \<open>n = 0\<close> on the ring of \<open>nodeA\<close> and \<open>nodeB\<close> the result is not the empty
  list but both nodes.
\<close>

theorem GetN_counterexample:
  "Add ring2 nodeQ = Inr ringQ \<and> Add ringQ nodeM = Inr ringQM \<and>
   map fst (members ringQM) = [nodeQ, nodeM] \<and> nodeQ \<noteq> nodeM \<and> count ringQM = 2 \<and>
   GetN ringQM ''0Q895q'' 2 = Some (Inr [Some nodeM]) \<and>
   Add ring0 nodeA = Inr ringA \<and> Add ringA nodeB = Inr ringAB \<and>
   GetN ringAB ''0b'' 0 = Some (Inr [Some nodeA, Some nodeB])"
  by (simp add: Add_ring2 Add_ringQ GetN_ringQM Add_ring0 Add_ringA GetN_ringAB_zero)
     (simp add: ringQM_def nodeQ_def nodeM_def)

text \<open>
  C6, as amended. Take a non-empty ring state that satisfies the ring invariant, whose
  count equals the number of registered nodes and in which every registered node
  holds at least one position of the table. Whenever \<open>GetTwo key\<close> returns a pair, its
  first component is the result of \<open>Get key\<close>. With exactly one registered node
  \<open>GetTwo\<close> returns that node and an absent second result, without error; with two
  or more it returns two distinct registered nodes.
\<close>

theorem GetTwo_two_distinct_members:
  assumes "ringInvariant c" and "circle c \<noteq> []"
    and "countAccurate c" and "membersOnRing c"
  shows "\<exists>a. Get c key = Inr (Some a) \<and> a \<in> fst ` set (members c) \<and>
           (\<forall>r. GetTwo c key = Some (Inr r) \<longrightarrow> fst r = Some a) \<and>
           (length (members c) = 1 \<longrightarrow> GetTwo c key = Some (Inr (Some a, None))) \<and>
           (2 \<le> length (members c) \<longrightarrow>
              (\<exists>b. GetTwo c key = Some (Inr (Some a, Some b)) \<and> b \<noteq> a \<and>
                   b \<in> fst ` set (members c)))"
proof -
  let ?i = "search c (hashKey key)"
  from assms(1) have cc: "cacheConsistent c" and dm: "distinct (map fst (members c))"
    and own: "tableOwned c" by (simp_all add: ringInvariant_def)
  note i = search_in_range[OF cc assms(2), of "hashKey key"]
  from Get_node_at_search[OF cc assms(2), of key] obtain a where
    g: "Get c key = Inr (Some a)" and na: "map_of (circle c) (sortedHashes c ! ?i) = Some a"
    and ina: "(sortedHashes c ! ?i, a) \<in> set (circle c)" by blast
  from ina own have am: "a \<in> fst ` set (members c)" by (auto simp: tableOwned_def)
  have first: "\<forall>r. GetTwo c key = Some (Inr r) \<longrightarrow> fst r = Some a"
    using assms(2) i na
    by (auto simp: GetTwo_def Let_def split: if_splits option.splits sum.splits)
  have one: "GetTwo c key = Some (Inr (Some a, None))" if "length (members c) = 1"
  proof -
    from that assms(3) have "count c = 1" by (simp add: countAccurate_def sint_eq_1)
    with assms(2) i na show ?thesis by (simp add: GetTwo_def Let_def)
  qed
  have two: "\<exists>b. GetTwo c key = Some (Inr (Some a, Some b)) \<and> b \<noteq> a \<and>
                 b \<in> fst ` set (members c)" if "2 \<le> length (members c)"
  proof -
    from that assms(3) have c1: "count c \<noteq> 1" by (auto simp: countAccurate_def)
    from other_member[OF dm that, of a] obtain y where
      y: "y \<in> fst ` set (members c)" "y \<noteq> a" by blast
    with assms(4) have "y \<in> snd ` set (circle c)" by (auto simp: membersOnRing_def)
    from node_on_ring_index[OF cc this] y(2) obtain j where
      j: "j < length (sortedHashes c)" "map_of (circle c) (sortedHashes c ! j) \<noteq> Some a"
      by auto
    from GetTwo_loop_finds[OF i na[symmetric] j, of None] obtain k where
      k: "k < length (sortedHashes c)" "map_of (circle c) (sortedHashes c ! k) \<noteq> Some a"
      and l: "GetTwo_loop c (Some a) ?i (?i + 1) None =
              Some (Inr (map_of (circle c) (sortedHashes c ! k)))" by blast
    from k(1) have "sortedHashes c ! k \<in> set (sortedHashes c)" by simp
    from position_has_node[OF cc this] obtain b where
      b: "map_of (circle c) (sortedHashes c ! k) = Some b"
         "(sortedHashes c ! k, b) \<in> set (circle c)" by blast
    from b(2) own have bm: "b \<in> fst ` set (members c)" by (auto simp: tableOwned_def)
    from b(1) k(2) have ba: "b \<noteq> a" by auto
    have "GetTwo c key = Some (Inr (Some a, Some b))"
      using assms(2) i na c1 l b(1) by (simp add: GetTwo_def Let_def)
    with ba bm show ?thesis by blast
  qed
  from g am first one two show ?thesis by blast
qed

theorem GetTwo_two_distinct_members_witness:
  "ringInvariant ringAB \<and> circle ringAB \<noteq> [] \<and> countAccurate ringAB \<and> membersOnRing ringAB \<and>
   2 \<le> length (members ringAB) \<and> Get ringAB ''0a'' = Inr (Some nodeB) \<and>
   (\<exists>b. GetTwo ringAB ''0a'' = Some (Inr (Some nodeB, Some b)) \<and> b \<noteq> nodeB \<and>
        b \<in> fst ` set (members ringAB))"
proof -
  have n: "circle ringAB \<noteq> []" by (simp add: ringAB_def)
  have c: "countAccurate ringAB" by (simp add: countAccurate_def ringAB_def)
  have m: "membersOnRing ringAB" by (simp add: membersOnRing_def ringAB_def)
  have l: "2 \<le> length (members ringAB)" by (simp add: ringAB_def)
  from GetTwo_two_distinct_members[OF ringInvariant_ringAB n c m, of "''0a''"] l
    Get_ringAB ringInvariant_ringAB n c m
  show ?thesis by auto
qed

text \<open>
  C6 as stated fails. On the ring to which the colliding nodes \<open>nodeQ\<close> and \<open>nodeM\<close>
  were added, two nodes are registered and \<open>GetTwo\<close> returns the same node twice.
  On the ring to which \<open>nodeQ\<close> was added twice, one node is registered and the
  second result is not absent.
\<close>

theorem GetTwo_counterexample:
  "Add ring2 nodeQ = Inr ringQ \<and> Add ringQ nodeM = Inr ringQM \<and>
   map fst (members ringQM) = [nodeQ, nodeM] \<and> nodeQ \<noteq> nodeM \<and>
   GetTwo ringQM ''0Q895q'' = Some (Inr (Some nodeM, Some nodeM)) \<and>
   Add ringQ nodeQ = Inr ringQQ \<and> map fst (members ringQQ) = [nodeQ] \<and>
   GetTwo ringQQ ''0Q895q'' = Some (Inr (Some nodeQ, Some nodeQ))"
  by (simp add: Add_ring2 Add_ringQ GetTwo_ringQM Add_ringQ_again GetTwo_ringQQ)
     (simp add: ringQM_def ringQQ_def nodeQ_def nodeM_def)

text \<open>
  C7, as amended. \<open>Set\<close> removes every current member that is not in the list and
  then adds every listed handle that is not already a member. It succeeds unless the
  replica count makes \<open>updateSortedHashes\<close> panic, and afterwards the membership set
  is exactly the set of handles in the list, and every position that is a replica
  position of neither a removed nor an added node is as it was. If moreover the
  replica positions of every removed node and of every added node collide with those
  of no other current member or listed handle, then every replica position of a
  removed node is vacant, every replica position of an added node is held by that
  node, and every replica position of a handle that was a member and is listed is as
  it was.
\<close>

theorem Set_reconciles_membership:
  "Set c elements = Set_reconcile c elements \<and>
   (NumberOfReplicas c * 4 \<noteq> 0 \<longrightarrow> (\<exists>c'. Set c elements = Inr c')) \<and>
   (\<forall>c'. Set c elements = Inr c' \<longrightarrow>
      fst ` set (members c') = set elements \<and>
      (\<forall>p. (\<forall>w\<in>(fst ` set (members c) - set elements) \<union> (set elements - fst ` set (members c)).
               p \<notin> set (replicaPositions c w)) \<longrightarrow>
           map_of (circle c') p = map_of (circle c) p) \<and>
      ((\<forall>w\<in>(fst ` set (members c) - set elements) \<union> (set elements - fst ` set (members c)).
          \<forall>x\<in>fst ` set (members c) \<union> set elements.
            x \<noteq> w \<longrightarrow> set (replicaPositions c w) \<inter> set (replicaPositions c x) = {}) \<longrightarrow>
       (\<forall>k\<in>fst ` set (members c) - set elements.
          \<forall>p\<in>set (replicaPositions c k). map_of (circle c') p = None) \<and>
       (\<forall>v\<in>set elements - fst ` set (members c).
          \<forall>p\<in>set (replicaPositions c v). map_of (circle c') p = Some v) \<and>
       (\<forall>v\<in>fst ` set (members c) \<inter> set elements.
          \<forall>p\<in>set (replicaPositions c v). map_of (circle c') p = map_of (circle c) p)))"
proof -
  let ?M = "fst ` set (members c)"
  let ?E = "set elements"
  let ?ks = "[k \<leftarrow> map fst (members c). k \<notin> set elements]"
  let ?vs = "[v \<leftarrow> firstOccurrences elements. v \<notin> fst ` set (members c)]"
  have sks: "set ?ks = ?M - ?E" by auto
  have svs: "set ?vs = ?E - ?M" by (auto simp: firstOccurrences_set)
  have total: "\<exists>c'. Set c elements = Inr c'" if r: "NumberOfReplicas c * 4 \<noteq> 0"
  proof -
    from applyAll_total(1)[OF r, of ?ks] obtain c1 where c1: "applyAll remove ?ks c = Inr c1"
      by blast
    from r applyAll_remove_result(3)[OF c1] have "NumberOfReplicas c1 * 4 \<noteq> 0" by simp
    from applyAll_total(2)[OF this, of ?vs] obtain c' where "applyAll add ?vs c1 = Inr c'"
      by blast
    with c1 show ?thesis by (simp add: Set_eq_reconcile Set_reconcile_def)
  qed
  have post: "fst ` set (members c') = set elements \<and>
      (\<forall>p. (\<forall>w\<in>(?M - ?E) \<union> (?E - ?M). p \<notin> set (replicaPositions c w)) \<longrightarrow>
           map_of (circle c') p = map_of (circle c) p) \<and>
      ((\<forall>w\<in>(?M - ?E) \<union> (?E - ?M). \<forall>x\<in>?M \<union> ?E.
            x \<noteq> w \<longrightarrow> set (replicaPositions c w) \<inter> set (replicaPositions c x) = {}) \<longrightarrow>
       (\<forall>k\<in>?M - ?E. \<forall>p\<in>set (replicaPositions c k). map_of (circle c') p = None) \<and>
       (\<forall>v\<in>?E - ?M. \<forall>p\<in>set (replicaPositions c v). map_of (circle c') p = Some v) \<and>
       (\<forall>v\<in>?M \<inter> ?E. \<forall>p\<in>set (replicaPositions c v). map_of (circle c') p = map_of (circle c) p))"
    if s: "Set c elements = Inr c'" for c'
  proof -
    from s obtain c1 where c1: "applyAll remove ?ks c = Inr c1"
      and c': "applyAll add ?vs c1 = Inr c'"
      by (auto simp: Set_eq_reconcile Set_reconcile_def split: sum.splits)
    note Rm = applyAll_remove_result[OF c1]
    note P1 = replicaPositions_cong[OF Rm(3)]
    have m1: "map_of (circle c1) p =
               (if \<forall>k\<in>set ?ks. p \<notin> set (replicaPositions c k) then map_of (circle c) p else None)"
      for p
      unfolding Rm(1)
      using map_of_filter_keys[where Q = "\<lambda>q. \<forall>k\<in>set ?ks. q \<notin> set (replicaPositions c k)",
          of "circle c" p] by simp
    have k1: "fst ` set (members c1) = ?M \<inter> ?E"
      by (auto simp: Rm(2) intro: rev_image_eqI)
    have mem: "fst ` set (members c') = set elements"
      unfolding applyAll_add_result(1)[OF c'] k1 svs by auto
    have frame: "map_of (circle c') p = map_of (circle c) p"
      if f: "\<forall>w\<in>(?M - ?E) \<union> (?E - ?M). p \<notin> set (replicaPositions c w)" for p
    proof -
      from f have a: "\<forall>v\<in>set ?vs. p \<notin> set (replicaPositions c1 v)"
        unfolding svs P1 by blast
      from f have b: "\<forall>k\<in>set ?ks. p \<notin> set (replicaPositions c k)"
        unfolding sks by blast
      from b have "map_of (circle c1) p = map_of (circle c) p" unfolding m1 by (rule if_P)
      with applyAll_add_result(3)[OF c' a] show ?thesis by simp
    qed
    have pos: "(\<forall>k\<in>?M - ?E. \<forall>p\<in>set (replicaPositions c k). map_of (circle c') p = None) \<and>
       (\<forall>v\<in>?E - ?M. \<forall>p\<in>set (replicaPositions c v). map_of (circle c') p = Some v) \<and>
       (\<forall>v\<in>?M \<inter> ?E. \<forall>p\<in>set (replicaPositions c v). map_of (circle c') p = map_of (circle c) p)"
      if cf: "\<forall>w\<in>(?M - ?E) \<union> (?E - ?M). \<forall>x\<in>?M \<union> ?E.
            x \<noteq> w \<longrightarrow> set (replicaPositions c w) \<inter> set (replicaPositions c x) = {}"
    proof -
      have disj: "p \<notin> set (replicaPositions c w)"
        if "w \<in> (?M - ?E) \<union> (?E - ?M)" "x \<in> ?M \<union> ?E" "x \<noteq> w" "p \<in> set (replicaPositions c x)"
        for w x p
        using cf that by blast
      have removed: "map_of (circle c') p = None"
        if k: "k \<in> ?M - ?E" "p \<in> set (replicaPositions c k)" for k p
      proof -
        from k(1) have "k \<in> set ?ks" unfolding sks .
        with k(2) have n1: "map_of (circle c1) p = None" unfolding m1 by auto
        have "\<forall>v\<in>set ?vs. p \<notin> set (replicaPositions c1 v)"
        proof
          fix v assume "v \<in> set ?vs"
          then have v: "v \<in> ?E - ?M" unfolding svs .
          with k(1) have "k \<noteq> v" by auto
          from disj[of v k p] v k \<open>k \<noteq> v\<close> show "p \<notin> set (replicaPositions c1 v)"
            unfolding P1 by blast
        qed
        from applyAll_add_result(3)[OF c' this] n1 show ?thesis by simp
      qed
      have added: "map_of (circle c') p = Some v"
        if v: "v \<in> ?E - ?M" "p \<in> set (replicaPositions c v)" for v p
      proof -
        from v(1) have vin: "v \<in> set ?vs" unfolding svs .
        from v(2) have pin: "p \<in> set (replicaPositions c1 v)" unfolding P1 .
        have "\<forall>w\<in>set ?vs. w \<noteq> v \<longrightarrow> p \<notin> set (replicaPositions c1 w)"
        proof (intro ballI impI)
          fix w assume "w \<in> set ?vs" "w \<noteq> v"
          then have w: "w \<in> ?E - ?M" unfolding svs by simp
          from disj[of w v p] w v \<open>w \<noteq> v\<close>
          show "p \<notin> set (replicaPositions c1 w)" unfolding P1 by blast
        qed
        from applyAll_add_owns[OF c' vin pin this] show ?thesis .
      qed
      have kept: "map_of (circle c') p = map_of (circle c) p"
        if v: "v \<in> ?M \<inter> ?E" "p \<in> set (replicaPositions c v)" for v p
      proof -
        have a: "\<forall>w\<in>set ?vs. p \<notin> set (replicaPositions c1 w)"
        proof
          fix w assume "w \<in> set ?vs"
          then have w: "w \<in> ?E - ?M" unfolding svs .
          with v(1) have "v \<noteq> w" by auto
          from disj[of w v p] w v \<open>v \<noteq> w\<close> show "p \<notin> set (replicaPositions c1 w)"
            unfolding P1 by blast
        qed
        have b: "\<forall>k\<in>set ?ks. p \<notin> set (replicaPositions c k)"
        proof
          fix k assume "k \<in> set ?ks"
          then have k: "k \<in> ?M - ?E" unfolding sks .
          with v(1) have "v \<noteq> k" by auto
          from disj[of k v p] k v \<open>v \<noteq> k\<close> show "p \<notin> set (replicaPositions c k)"
            by blast
        qed
        from b have "map_of (circle c1) p = map_of (circle c) p" unfolding m1 by (rule if_P)
        with applyAll_add_result(3)[OF c' a] show ?thesis by simp
      qed
      from removed added kept show ?thesis by blast
    qed
    from mem frame pos show ?thesis by blast
  qed
  from Set_eq_reconcile[of c elements] total post show ?thesis by blast
qed

theorem Set_reconciles_membership_witness:
  "NumberOfReplicas ringAB * 4 \<noteq> 0 \<and>
   fst ` set (members ringAB) = {nodeA, nodeB} \<and>
   replicaPositions ringAB nodeA = [2754246082] \<and>
   replicaPositions ringAB nodeB = [1025713272] \<and>
   replicaPositions ringAB nodeC = [1243878638] \<and>
   Set ringAB [nodeA, nodeC] = Inr ringAC \<and>
   Set_reconcile ringAB [nodeA, nodeC] = Inr ringAC \<and>
   fst ` set (members ringAC) = {nodeA, nodeC} \<and>
   map_of (circle ringAC) 1025713272 = None \<and>
   map_of (circle ringAC) 1243878638 = Some nodeC \<and>
   map_of (circle ringAC) 2754246082 = map_of (circle ringAB) 2754246082 \<and>
   map_of (circle ringAB) 2754246082 = Some nodeA \<and>
   map_of (circle ringAC) 0 = map_of (circle ringAB) 0"
proof -
  have r: "NumberOfReplicas ringAB * 4 \<noteq> 0" by (simp add: ringAB_def)
  have ne: "nodeA \<noteq> nodeB" "nodeA \<noteq> nodeC" "nodeB \<noteq> nodeC"
    by (simp_all add: nodeA_def nodeB_def nodeC_def)
  have m: "fst ` set (members ringAB) = {nodeA, nodeB}" by (simp add: ringAB_def)
  have pa: "replicaPositions ringAB nodeA = [2754246082]"
    by (simp add: replicaPositions_def ringAB_def ring_eval)
  have pb: "replicaPositions ringAB nodeB = [1025713272]"
    by (simp add: replicaPositions_def ringAB_def ring_eval)
  have pc: "replicaPositions ringAB nodeC = [1243878638]"
    by (simp add: replicaPositions_def ringAB_def nodeC_def hash_0c ring_eval)
  have rem: "fst ` set (members ringAB) - set [nodeA, nodeC] = {nodeB}"
    unfolding m using ne by auto
  have add: "set [nodeA, nodeC] - fst ` set (members ringAB) = {nodeC}"
    unfolding m using ne by auto
  have kept: "fst ` set (members ringAB) \<inter> set [nodeA, nodeC] = {nodeA}"
    unfolding m using ne by auto
  have cf: "\<forall>w\<in>(fst ` set (members ringAB) - set [nodeA, nodeC]) \<union>
               (set [nodeA, nodeC] - fst ` set (members ringAB)).
            \<forall>x\<in>fst ` set (members ringAB) \<union> set [nodeA, nodeC].
              x \<noteq> w \<longrightarrow> set (replicaPositions ringAB w) \<inter> set (replicaPositions ringAB x) = {}"
    unfolding rem add unfolding m by (simp add: pa pb pc)
  have fr: "\<forall>w\<in>(fst ` set (members ringAB) - set [nodeA, nodeC]) \<union>
               (set [nodeA, nodeC] - fst ` set (members ringAB)).
            0 \<notin> set (replicaPositions ringAB w)"
    unfolding rem add by (simp add: pb pc)
  note T = Set_reconciles_membership[of ringAB "[nodeA, nodeC]"]
  note T3 = T[THEN conjunct2, THEN conjunct2, rule_format, OF Set_ringAB]
  note P = mp[OF T3[THEN conjunct2, THEN conjunct2] cf]
  from T[THEN conjunct1] Set_ringAB have "Set_reconcile ringAB [nodeA, nodeC] = Inr ringAC"
    by simp
  moreover from T3[THEN conjunct1] have "fst ` set (members ringAC) = {nodeA, nodeC}" by simp
  moreover from mp[OF spec[OF T3[THEN conjunct2, THEN conjunct1], where x = 0] fr]
  have "map_of (circle ringAC) 0 = map_of (circle ringAB) 0" .
  moreover from P[THEN conjunct1] have "map_of (circle ringAC) 1025713272 = None"
    unfolding rem by (simp add: pb)
  moreover from P[THEN conjunct2, THEN conjunct1]
  have "map_of (circle ringAC) 1243878638 = Some nodeC"
    unfolding add by (simp add: pc)
  moreover from P[THEN conjunct2, THEN conjunct2]
  have "map_of (circle ringAC) 2754246082 = map_of (circle ringAB) 2754246082"
    unfolding kept by (simp add: pa)
  moreover have "map_of (circle ringAB) 2754246082 = Some nodeA" by (simp add: ringAB_def)
  ultimately show ?thesis using r m pa pb pc Set_ringAB by simp
qed

text \<open>
  C7 as stated fails: on the ring built by adding \<open>nodeM\<close> and then \<open>nodeQ\<close>, whose
  replica positions are the same, \<open>nodeQ\<close> holds both positions. \<open>Set\<close> with the list
  that holds \<open>nodeQ\<close> alone removes \<open>nodeM\<close>, which deletes both positions: the
  handle that was present and is listed loses all its replica positions, and \<open>Get\<close>
  goes from \<open>nodeQ\<close> to \<open>ErrEmptyCircle\<close>.
\<close>

theorem Set_present_handle_counterexample:
  "Add ring2 nodeM = Inr ringM \<and> Add ringM nodeQ = Inr ringMQ \<and> reachable ringMQ \<and>
   map fst (members ringMQ) = [nodeM, nodeQ] \<and> nodeM \<noteq> nodeQ \<and>
   replicaPositions ringMQ nodeQ = [735956280, 3766558365] \<and>
   map_of (circle ringMQ) 735956280 = Some nodeQ \<and>
   map_of (circle ringMQ) 3766558365 = Some nodeQ \<and>
   Get ringMQ [] = Inr (Some nodeQ) \<and>
   Set ringMQ [nodeQ] = Inr ringQ_stripped \<and>
   map fst (members ringQ_stripped) = [nodeQ] \<and>
   map_of (circle ringQ_stripped) 735956280 = None \<and>
   map_of (circle ringQ_stripped) 3766558365 = None \<and>
   Get ringQ_stripped [] = Inl ErrEmptyCircle"
  by (simp add: Add_ring2_M Add_ringM reachable_ringMQ replicaPositions_ringMQ Get_ringMQ
      Set_ringMQ Get_ringQ_stripped)
     (simp add: ringMQ_def ringQ_stripped_def nodeQ_def nodeM_def)

text \<open>
  C8. Take a ring state that satisfies the ring invariant and a node \<open>b\<close> whose
  replica positions collide with those of no other registered node. If \<open>Get key\<close>
  returned a node \<open>a\<close> other than \<open>b\<close> before \<open>Remove b\<close>, it returns the same node
  \<open>a\<close> afterwards, and \<open>a\<close> is still registered: only keys that were mapped to \<open>b\<close>
  are remapped.
\<close>

theorem Remove_remaps_only_keys_of_removed_node:
  assumes "ringInvariant c"
    and "\<forall>x\<in>fst ` set (members c). x \<noteq> b \<longrightarrow>
           set (replicaPositions c x) \<inter> set (replicaPositions c b) = {}"
    and "Get c key = Inr (Some a)"
    and "a \<noteq> b"
    and "Remove c b = Inr c'"
  shows "Get c' key = Inr (Some a) \<and> a \<in> fst ` set (members c')"
proof -
  from assms(1) have cc: "cacheConsistent c" by (simp add: ringInvariant_def)
  from assms(5) have r: "remove c b = Inr c'" by (simp add: Remove_def)
  note g = Remove_keeps_other_nodes_key[OF cc collision_free_positions[OF assms(1,2)] assms(3,4,5)]
  have inv': "ringInvariant c'" by (rule remove_ringInvariant[OF r assms(1)])
  then have cc': "cacheConsistent c'" and own': "tableOwned c'"
    by (simp_all add: ringInvariant_def)
  from g have ne': "circle c' \<noteq> []" by (auto simp: Get_def split: if_splits)
  from Get_successor[OF cc' ne', of key] g obtain p where "(p, a) \<in> set (circle c')" by auto
  with own' have "a \<in> fst ` set (members c')" by (auto simp: tableOwned_def)
  with g show ?thesis by simp
qed

theorem Remove_remaps_only_keys_of_removed_node_witness:
  "ringInvariant ringAB \<and> map fst (members ringAB) = [nodeA, nodeB] \<and>
   replicaPositions ringAB nodeA = [2754246082] \<and>
   replicaPositions ringAB nodeB = [1025713272] \<and>
   Get ringAB ''0b'' = Inr (Some nodeA) \<and> nodeA \<noteq> nodeB \<and>
   Remove ringAB nodeB = Inr ringA \<and> Get ringA ''0b'' = Inr (Some nodeA) \<and>
   nodeA \<in> fst ` set (members ringA)"
proof -
  have m: "map fst (members ringAB) = [nodeA, nodeB]" by (simp add: ringAB_def)
  have pa: "replicaPositions ringAB nodeA = [2754246082]"
    by (simp add: replicaPositions_def ringAB_def ring_eval)
  have pb: "replicaPositions ringAB nodeB = [1025713272]"
    by (simp add: replicaPositions_def ringAB_def ring_eval)
  have ms: "fst ` set (members ringAB) = {nodeA, nodeB}" by (simp add: ringAB_def)
  have h: "\<forall>x\<in>fst ` set (members ringAB). x \<noteq> nodeB \<longrightarrow>
           set (replicaPositions ringAB x) \<inter> set (replicaPositions ringAB nodeB) = {}"
    unfolding ms by (simp add: pa pb)
  have g: "Get ringAB ''0b'' = Inr (Some nodeA)"
    by (simp add: Get_def ringAB_def search_def Search_def Search_loop.simps ring_eval)
  have n: "nodeA \<noteq> nodeB" by (simp add: nodeA_def nodeB_def)
  have r: "Remove ringAB nodeB = Inr ringA"
    by (simp add: Remove_def remove_eq replicaPositions_def ringAB_def ringA_def ring_eval)
  from Remove_remaps_only_keys_of_removed_node[OF ringInvariant_ringAB h g n r]
    ringInvariant_ringAB m pa pb g n r
  show ?thesis by simp
qed

text \<open>
  C9. In every ring state reached from a new ring by \<open>Add\<close>, \<open>Remove\<close> and \<open>Set\<close>,
  the sorted position cache holds exactly the keys of the position table, in ascending
  order and without duplicates.
\<close>

theorem cache_agrees_with_table:
  assumes "reachable c"
  shows "sorted (sortedHashes c) \<and> distinct (sortedHashes c) \<and>
         set (sortedHashes c) = fst ` set (circle c)"
proof -
  from reachable_ringInvariant[OF assms] have "cacheConsistent c"
    by (simp add: ringInvariant_def)
  then show ?thesis by (simp add: cacheConsistent_def)
qed

theorem cache_agrees_with_table_witness:
  "reachable ringAB \<and> sortedHashes ringAB = [1025713272, 2754246082] \<and>
   sorted (sortedHashes ringAB) \<and> distinct (sortedHashes ringAB) \<and>
   set (sortedHashes ringAB) = fst ` set (circle ringAB)"
  using cache_agrees_with_table[OF reachable_ringAB] reachable_ringAB
  by (simp add: ringAB_def)

text \<open>
  C10. For every string, \<open>hashKey\<close> is the IEEE CRC-32 of exactly the bytes of the
  string: the branch for strings shorter than 64 bytes, which copies the string into a
  64-byte scratch buffer and checksums its first \<open>length key\<close> bytes, computes the
  same value as the direct branch.
\<close>

theorem hashKey_is_ChecksumIEEE: "hashKey key = ChecksumIEEE (bytes key)"
  by (simp add: hashKey_def scratch_roundtrip)

end
